theory Spec2Isabelle
  imports Complex_Main "HOL-Library.Word" "HOL-Library.Multiset" "HOL-Library.Product_Lexorder"
begin

unbundle bit_operations_syntax

section \<open>Tokens (Token.hpp)\<close>

text \<open>
  \<^verbatim>\<open>template <typename T> class Token\<close> stores two values of type \<open>T\<close>: the packed
  field \<open>_id = (id << 1) + query\<close> and \<open>_value\<close>. \<open>Token64\<close> is the instance at
  \<open>uint64_t\<close>, here \<open>64 word\<close>, where \<open><<\<close> drops the top bit and \<open>+\<close> wraps.
  The template parameter is kept as a type variable.
\<close>

type_synonym u64 = "64 word"

record 'a Token =
  id_packed :: 'a
  value_field :: 'a

text \<open>\<^verbatim>\<open>Token(bool query, const value_type & id, const value_type & value)\<close>\<close>

definition Token :: "bool \<Rightarrow> 'a::semiring_bit_operations \<Rightarrow> 'a \<Rightarrow> 'a Token" where
  "Token query idx val = \<lparr>id_packed = push_bit 1 idx + of_bool query, value_field = val\<rparr>"

text \<open>\<^verbatim>\<open>value_type id() const { return _id >> 1; }\<close>\<close>

definition token_id :: "'a::semiring_bit_operations Token \<Rightarrow> 'a" where
  "token_id t = drop_bit 1 (id_packed t)"

text \<open>\<^verbatim>\<open>const value_type & value() const { return _value; }\<close>\<close>

definition token_value :: "'a Token \<Rightarrow> 'a" where
  "token_value t = value_field t"

text \<open>\<^verbatim>\<open>bool query() const { return _id & 1; }\<close>\<close>

definition token_query :: "'a::semiring_bit_operations Token \<Rightarrow> bool" where
  "token_query t = (id_packed t AND 1 \<noteq> 0)"

text \<open>
  \<^verbatim>\<open>bool operator<(const Token & other) const {
      return _id < other._id || (_id == other._id && _value < other._value); }\<close>
\<close>

definition token_less :: "'a::linorder Token \<Rightarrow> 'a Token \<Rightarrow> bool" where
  "token_less a b \<longleftrightarrow>
     id_packed a < id_packed b \<or> (id_packed a = id_packed b \<and> value_field a < value_field b)"

type_synonym Token64 = "u64 Token"

text \<open>
  The order the specification describes: lexicographic by (idx, kind, value), a Link
  (\<open>False\<close>) before a Query (\<open>True\<close>) at the same index.
\<close>

definition spec_token_less :: "Token64 \<Rightarrow> Token64 \<Rightarrow> bool" where
  "spec_token_less a b \<longleftrightarrow>
     token_id a < token_id b
     \<or> (token_id a = token_id b \<and> (\<not> token_query a \<and> token_query b))
     \<or> (token_id a = token_id b \<and> token_query a = token_query b \<and> token_value a < token_value b)"

section \<open>Compressed tokens of the parallel engine (main\_pba.cpp)\<close>

text \<open>
  \<^verbatim>\<open>class TokenCompressed { uint64_t _data1; uint32_t _data2; ... }\<close> with
  \<^verbatim>\<open>constexpr static uint64_t mask = (1l << 47) - 1;\<close>
\<close>

record TokenCompressed =
  data1 :: u64
  data2 :: "32 word"

definition tc_mask :: u64 where
  "tc_mask = push_bit 47 1 - 1"

text \<open>
  \<^verbatim>\<open>TokenCompressed(const bool & query, const Node & index, const Node & value)
      : _data1((index << 17) | (static_cast<uint64_t>(query) << 16) | (value >> 32))
      , _data2(static_cast<uint32_t>(value))
  { assert((index & mask) == index); assert((value & mask) == value); }\<close>
  A failing assertion aborts the program: \<open>None\<close>.
\<close>

definition TokenCompressed :: "bool \<Rightarrow> u64 \<Rightarrow> u64 \<Rightarrow> TokenCompressed option" where
  "TokenCompressed query index val =
     (if index AND tc_mask \<noteq> index then None
      else if val AND tc_mask \<noteq> val then None
      else Some \<lparr>data1 = push_bit 17 index OR push_bit 16 (of_bool query) OR drop_bit 32 val,
                 data2 = ucast val\<rparr>)"

text \<open>\<^verbatim>\<open>bool is_query() const { return static_cast<bool>(_data1 & (1l << 16)); }\<close>\<close>

definition is_query :: "TokenCompressed \<Rightarrow> bool" where
  "is_query t = (data1 t AND push_bit 16 1 \<noteq> 0)"

text \<open>
  \<^verbatim>\<open>struct Token { bool query; Node index; Node value; };\<close> of main\_pba.cpp (the type of
  \<open>Node\<close> is a type variable, \<open>u64\<close> in the program) and
  \<^verbatim>\<open>Token decompress() const\<close>:
  \<^verbatim>\<open>t.index = _data1 >> 17; t.value = ((_data1 & 0x7FFF) << 32) | _data2;\<close>
\<close>

record 'a PToken =
  query :: bool
  index :: 'a
  pvalue :: 'a

definition decompress :: "TokenCompressed \<Rightarrow> u64 PToken" where
  "decompress t = \<lparr>query = is_query t, index = drop_bit 17 (data1 t),
                    pvalue = push_bit 32 (data1 t AND 0x7FFF) OR ucast (data2 t)\<rparr>"





section \<open>Reservoir sampling (ReservoirSampling.hpp)\<close>

text \<open>
  \<^verbatim>\<open>std::vector<T> _reservoir; size_t _reservoir_target_size; IndexType _elements_pushed;\<close>
  Sizes and counters are natural numbers; none of them comes near \<open>2^64\<close>.
\<close>

record 'a ReservoirSampling =
  reservoir :: "'a list"
  reservoir_target_size :: nat
  elements_pushed :: nat

text \<open>
  \<^verbatim>\<open>ReservoirSampling(size_t reservoir_size)
      : _reservoir(reservoir_size), _reservoir_target_size(reservoir_size), _elements_pushed(0)
  { assert(reservoir_size > 0); }\<close>
  The vector constructor \<^verbatim>\<open>_reservoir(reservoir_size)\<close> creates \<open>reservoir_size\<close>
  value-initialised elements; \<open>dflt\<close> is that value \<^verbatim>\<open>T()\<close>.
\<close>

definition ReservoirSampling :: "'a \<Rightarrow> nat \<Rightarrow> 'a ReservoirSampling option" where
  "ReservoirSampling dflt reservoir_size =
     (if reservoir_size > 0
      then Some \<lparr>reservoir = replicate reservoir_size dflt,
                 reservoir_target_size = reservoir_size, elements_pushed = 0\<rparr>
      else None)"

text \<open>
  \<^verbatim>\<open>void push(const T& d) {
      ++_elements_pushed;
      if (UNLIKELY(_reservoir_target_size <= _elements_pushed)) {
          _reservoir.push_back(d);                       // Initial fill
      } else {
          IndexType r = Random::randint(_elements_pushed);
          if (LIKELY(r >= _reservoir_target_size)) return;   // Do not sample
          if (LIKELY(r < _reservoir.size())) _reservoir[r] = d;
          else _reservoir.push_back(d);
      }
  }\<close>
  The draw \<open>r\<close> of \<^verbatim>\<open>Random::randint\<close> is an argument; it is read in the second branch only.
\<close>

definition push :: "'a \<Rightarrow> nat \<Rightarrow> 'a ReservoirSampling \<Rightarrow> 'a ReservoirSampling" where
  "push d r s =
     (let s1 = s\<lparr>elements_pushed := elements_pushed s + 1\<rparr> in
      if reservoir_target_size s1 \<le> elements_pushed s1
      then s1\<lparr>reservoir := reservoir s1 @ [d]\<rparr>
      else if r \<ge> reservoir_target_size s1 then s1
      else if r < length (reservoir s1) then s1\<lparr>reservoir := (reservoir s1)[r := d]\<rparr>
      else s1\<lparr>reservoir := reservoir s1 @ [d]\<rparr>)"

text \<open>A sequence of pushes, each with its draw.\<close>

fun push_all :: "('a \<times> nat) list \<Rightarrow> 'a ReservoirSampling \<Rightarrow> 'a ReservoirSampling" where
  "push_all [] s = s"
| "push_all ((d, r) # ds) s = push_all ds (push d r s)"

section \<open>Edge filter (EdgeFilter.hpp)\<close>

text \<open>
  An input stream with the STXXL interface \<^verbatim>\<open>empty()\<close>, \<^verbatim>\<open>operator*\<close>, \<^verbatim>\<open>operator++\<close>
  is the list of the elements it still has to deliver: \<^verbatim>\<open>empty()\<close> is \<open>xs = []\<close>,
  \<^verbatim>\<open>*stream\<close> is \<open>hd xs\<close> and \<^verbatim>\<open>++stream\<close> is \<open>tl xs\<close>.
  Edges are \<^verbatim>\<open>std::pair<uint64_t, uint64_t>\<close>.
\<close>

type_synonym edge = "u64 \<times> u64"

record EdgeFilter =
  ef_stream :: "edge list"
  ef_empty :: bool
  self_loops :: bool
  multi_edges :: bool
  current_edge :: edge
  last_edge :: edge

text \<open>
  The loop of \<^verbatim>\<open>_fetch\<close>, entered with \<^verbatim>\<open>issue = true\<close>:
  \<^verbatim>\<open>while(issue && !_stream.empty()) {
      auto & candidate = *_stream;
      issue = (_self_loops && candidate.first == candidate.second)
           || (_multi_edges && !initial_fetch && _last_edge == candidate);
      if (LIKELY(!issue)) _current_edge = candidate;
      ++_stream;
  }\<close>
  It returns the final \<open>issue\<close>, \<open>_current_edge\<close> and the rest of the stream.
\<close>

fun fetch_loop :: "bool \<Rightarrow> bool \<Rightarrow> bool \<Rightarrow> edge \<Rightarrow> edge \<Rightarrow> edge list \<Rightarrow> bool \<times> edge \<times> edge list" where
  "fetch_loop sl me initial_fetch lst cur [] = (True, cur, [])"
| "fetch_loop sl me initial_fetch lst cur (candidate # rest) =
     (let issue = (sl \<and> fst candidate = snd candidate)
                  \<or> (me \<and> \<not> initial_fetch \<and> lst = candidate)
      in if issue then fetch_loop sl me initial_fetch lst cur rest
         else (False, candidate, rest))"

text \<open>
  \<^verbatim>\<open>void _fetch(bool initial_fetch) { _last_edge = _current_edge; ...loop...; _empty = issue; }\<close>
\<close>

definition fetch :: "bool \<Rightarrow> EdgeFilter \<Rightarrow> EdgeFilter" where
  "fetch initial_fetch f =
     (let lst = current_edge f;
          (issue, cur, rest) =
             fetch_loop (self_loops f) (multi_edges f) initial_fetch lst (current_edge f) (ef_stream f)
      in f\<lparr>last_edge := lst, current_edge := cur, ef_stream := rest, ef_empty := issue\<rparr>)"

text \<open>
  \<^verbatim>\<open>EdgeFilter(InputStream & stream, bool self_loops = false, bool multi_edges = false)\<close>
  sets \<^verbatim>\<open>_empty(false)\<close> and calls \<^verbatim>\<open>_fetch(true)\<close>. The two edge fields are
  value-initialised pairs.
\<close>

definition EdgeFilter :: "edge list \<Rightarrow> bool \<Rightarrow> bool \<Rightarrow> EdgeFilter" where
  "EdgeFilter stream sl me =
     fetch True \<lparr>ef_stream = stream, ef_empty = False, self_loops = sl, multi_edges = me,
                 current_edge = (0, 0), last_edge = (0, 0)\<rparr>"

text \<open>
  The elements a consumer reads from the filter:
  \<^verbatim>\<open>for(; !stream.empty(); ++stream) { ... *stream ... }\<close>
\<close>

function EdgeFilter_output :: "EdgeFilter \<Rightarrow> edge list" where
  "EdgeFilter_output f =
     (if ef_empty f then [] else current_edge f # EdgeFilter_output (fetch False f))"
  by pat_completeness auto


lemma fetch_loop_length:
  "fetch_loop sl me i lst cur xs = (issue, c, rest) \<Longrightarrow> \<not> issue \<Longrightarrow> length rest < length xs"
  by (induction xs) (auto split: if_splits simp: Let_def)

termination EdgeFilter_output
  apply (relation "measure (\<lambda>f. if ef_empty f then 0 else Suc (length (ef_stream f)))")
   apply simp
  apply (auto simp add: fetch_def Let_def split: prod.splits dest: fetch_loop_length)
  done

declare EdgeFilter_output.simps [simp del]

text \<open>The filter as a function from the input sequence to the output sequence.\<close>

definition filter_edges :: "bool \<Rightarrow> bool \<Rightarrow> edge list \<Rightarrow> edge list" where
  "filter_edges sl me xs = EdgeFilter_output (EdgeFilter xs sl me)"

section \<open>Stream merger (StreamMerger.hpp)\<close>

text \<open>
  \<^verbatim>\<open>template <typename T, class Compare, class Stream, typename... Streams> class StreamMerger\<close>
  holds \<^verbatim>\<open>_others\<close> (the merger of the remaining streams), \<^verbatim>\<open>_my_stream\<close>,
  \<^verbatim>\<open>_current\<close> and \<^verbatim>\<open>_empty\<close>; the specialisation for one stream holds that stream only.
\<close>

datatype 'a StreamMerger =
  Single (single_stream: "'a list")
| Merger (others: "'a StreamMerger") (my_stream: "'a list") (current: 'a) (is_empty: bool)

text \<open>\<^verbatim>\<open>bool empty() const\<close>: \<^verbatim>\<open>_my_stream.empty()\<close> in the base case, \<^verbatim>\<open>_empty\<close> otherwise.\<close>

fun sm_empty :: "'a StreamMerger \<Rightarrow> bool" where
  "sm_empty (Single xs) = (xs = [])"
| "sm_empty (Merger ot my cur e) = e"

text \<open>\<^verbatim>\<open>const T& operator*() const\<close>: \<^verbatim>\<open>*_my_stream\<close> in the base case, \<^verbatim>\<open>_current\<close> otherwise.\<close>

fun sm_deref :: "'a StreamMerger \<Rightarrow> 'a" where
  "sm_deref (Single xs) = hd xs"
| "sm_deref (Merger ot my cur e) = cur"

text \<open>
  \<^verbatim>\<open>StreamMerger& operator++() {
      if (_my_stream.empty() && _others.empty()) { _empty = true; }
      else if (_my_stream.empty()) { _current = *_others; ++_others; }
      else if (_others.empty()) { _current = *_my_stream; ++_my_stream; }
      else { if (_compare(*_my_stream, *_others)) { _current = *_my_stream; ++_my_stream; }
             else { _current = *_others; ++_others; } }
      return *this; }\<close>
  In the base case \<^verbatim>\<open>operator++\<close> is \<^verbatim>\<open>++_my_stream\<close>.
\<close>

fun sm_advance :: "('a \<Rightarrow> 'a \<Rightarrow> bool) \<Rightarrow> 'a StreamMerger \<Rightarrow> 'a StreamMerger" where
  "sm_advance compare (Single xs) = Single (tl xs)"
| "sm_advance compare (Merger ot my cur e) =
     (if my = [] \<and> sm_empty ot then Merger ot my cur True
      else if my = [] then Merger (sm_advance compare ot) my (sm_deref ot) e
      else if sm_empty ot then Merger ot (tl my) (hd my) e
      else if compare (hd my) (sm_deref ot) then Merger ot (tl my) (hd my) e
      else Merger (sm_advance compare ot) my (sm_deref ot) e)"

text \<open>
  \<^verbatim>\<open>StreamMerger(Compare & compare, Stream & stream, Streams &... streams)
      : _compare(compare), _others(compare, streams...), _my_stream(stream), _empty(false)
  {++(*this);}\<close>
  \<^verbatim>\<open>_current\<close> is not initialised by the constructor: \<open>junk\<close> is its content before the
  first \<^verbatim>\<open>++\<close>. The template needs at least one stream; the equation for the empty list of
  streams is there for totality only.
\<close>

fun new_StreamMerger :: "('a \<Rightarrow> 'a \<Rightarrow> bool) \<Rightarrow> 'a \<Rightarrow> 'a list list \<Rightarrow> 'a StreamMerger" where
  "new_StreamMerger compare junk [] = Single []"
| "new_StreamMerger compare junk [stream] = Single stream"
| "new_StreamMerger compare junk (stream # streams) =
     sm_advance compare (Merger (new_StreamMerger compare junk streams) stream junk False)"

text \<open>The number of elements a merger can still deliver, the measure of the read loop.\<close>

fun sm_pending :: "'a StreamMerger \<Rightarrow> nat" where
  "sm_pending (Single xs) = length xs"
| "sm_pending (Merger ot my cur e) = sm_pending ot + length my + (if e then 0 else 1)"

lemma sm_advance_pending:
  "\<not> sm_empty m \<Longrightarrow> sm_pending (sm_advance compare m) < sm_pending m"
  by (induction m) (auto simp add: less_Suc_eq_le intro: less_imp_le)

text \<open>
  The elements a consumer reads from the merger:
  \<^verbatim>\<open>for(; !stream.empty(); ++stream) { ... *stream ... }\<close>
\<close>

function sm_output :: "('a \<Rightarrow> 'a \<Rightarrow> bool) \<Rightarrow> 'a StreamMerger \<Rightarrow> 'a list" where
  "sm_output compare m =
     (if sm_empty m then [] else sm_deref m # sm_output compare (sm_advance compare m))"
  by pat_completeness auto
termination
  by (relation "measure (\<lambda>(compare, m). sm_pending m)") (auto simp add: sm_advance_pending)

declare sm_output.simps [simp del]

text \<open>
  The merger as the specification words it: at each step the minimum front element over
  all non-empty inputs is delivered and exactly the input that provided it is advanced.
  The comparator is \<open>\<lambda>x y. key x < key y\<close> for a key into a linear order, so that two
  front elements tie when their keys are equal. \<open>min_fronts\<close> lists the inputs whose front
  is a minimum, in input order.
\<close>

definition min_fronts :: "('a \<Rightarrow> 'k::linorder) \<Rightarrow> 'a list list \<Rightarrow> nat list" where
  "min_fronts key ss =
     filter (\<lambda>i. ss ! i \<noteq> [] \<and> list_all (\<lambda>s. s = [] \<or> key (hd (ss ! i)) \<le> key (hd s)) ss)
            [0..<length ss]"

lemma min_fronts_mem: "i \<in> set (min_fronts key ss) \<Longrightarrow> i < length ss \<and> ss ! i \<noteq> []"
  by (auto simp add: min_fronts_def)

lemma sum_length_update:
  "i < length ss \<Longrightarrow> ss ! i \<noteq> [] \<Longrightarrow>
   sum_list (map length (ss[i := tl (ss ! i)])) < sum_list (map length ss)"
proof (induction ss arbitrary: i)
  case Nil
  then show ?case by simp
next
  case (Cons s ss)
  show ?case
  proof (cases i)
    case 0
    with Cons.prems show ?thesis by (cases s) simp_all
  next
    case (Suc j)
    with Cons.prems Cons.IH[of j] show ?thesis by simp
  qed
qed

text \<open>Ties broken in input-index order: the earliest-listed input is consumed first.\<close>

function spec_merge_first :: "('a \<Rightarrow> 'k::linorder) \<Rightarrow> 'a list list \<Rightarrow> 'a list" where
  "spec_merge_first key ss =
     (case min_fronts key ss of
        [] \<Rightarrow> []
      | i # _ \<Rightarrow> hd (ss ! i) # spec_merge_first key (ss[i := tl (ss ! i)]))"
  by pat_completeness auto
termination
proof (relation "measure (\<lambda>(key, ss). sum_list (map length ss))")
  fix key :: "'a \<Rightarrow> 'k::linorder" and ss :: "'a list list" and i js
  assume "min_fronts key ss = i # js"
  then have "i \<in> set (min_fronts key ss)" by simp
  then have "i < length ss \<and> ss ! i \<noteq> []" by (rule min_fronts_mem)
  then show "((key, ss[i := tl (ss ! i)]), (key, ss)) \<in> measure (\<lambda>(key, ss). sum_list (map length ss))"
    by (simp add: sum_length_update)
qed simp

declare spec_merge_first.simps [simp del]

text \<open>Ties broken against input-index order: the latest-listed input is consumed first.\<close>

function spec_merge_last :: "('a \<Rightarrow> 'k::linorder) \<Rightarrow> 'a list list \<Rightarrow> 'a list" where
  "spec_merge_last key ss =
     (case min_fronts key ss of
        [] \<Rightarrow> []
      | i # is \<Rightarrow> hd (ss ! last (i # is)) #
                  spec_merge_last key (ss[last (i # is) := tl (ss ! last (i # is))]))"
  by pat_completeness auto
termination
proof (relation "measure (\<lambda>(key, ss). sum_list (map length ss))")
  fix key :: "'a \<Rightarrow> 'k::linorder" and ss :: "'a list list" and i js
  assume "min_fronts key ss = i # js"
  then have "last (i # js) \<in> set (min_fronts key ss)" by (metis last_in_set list.distinct(1))
  then have "last (i # js) < length ss \<and> ss ! last (i # js) \<noteq> []" by (rule min_fronts_mem)
  then show "((key, ss[last (i # js) := tl (ss ! last (i # js))]), (key, ss))
             \<in> measure (\<lambda>(key, ss). sum_list (map length ss))"
    by (simp add: sum_length_update)
qed simp

declare spec_merge_last.simps [simp del]

text \<open>What the filter keeps, as list functions: the edges that pass the self-loop test, and
  the removal of adjacent repetitions.\<close>

definition kept :: "bool \<Rightarrow> edge \<Rightarrow> bool" where
  "kept sl e \<longleftrightarrow> \<not> (sl \<and> fst e = snd e)"

definition dedup :: "bool \<Rightarrow> edge list \<Rightarrow> edge list" where
  "dedup me xs = (if me then remdups_adj xs else xs)"

text \<open>
  The merge of two sequences that takes from the first one only when its front is strictly
  smaller; the nested mergers are compared with it in the proofs.
\<close>

fun merge2 :: "('a \<Rightarrow> 'a \<Rightarrow> bool) \<Rightarrow> 'a list \<Rightarrow> 'a list \<Rightarrow> 'a list" where
  "merge2 compare [] ys = ys"
| "merge2 compare (x # xs) [] = x # xs"
| "merge2 compare (x # xs) (y # ys) =
     (if compare x y then x # merge2 compare xs (y # ys) else y # merge2 compare (x # xs) ys)"

abbreviation (input) kless :: "('a \<Rightarrow> 'k::linorder) \<Rightarrow> 'a \<Rightarrow> 'a \<Rightarrow> bool" where
  "kless key \<equiv> (\<lambda>x y. key x < key y)"

section \<open>BBCR token generator (models/ModelBBCR.hpp)\<close>

text \<open>
  The two random sources \<^verbatim>\<open>stxxl::random_number64 _rand64\<close> and
  \<^verbatim>\<open>stxxl::random_uniform_slow _randdbl\<close> are library objects with a hidden state. They
  are parameters here: a function from the state \<open>'g\<close> of the random sources (and the
  supremum) to the number drawn and the next state. \<^verbatim>\<open>_rand64(N)\<close> draws from \<open>[0, N)\<close>;
  \<^verbatim>\<open>_randdbl()\<close> draws a double.

  The doubles are the values of a type \<open>'d\<close>, and the operations of the arithmetic of
  doubles the code uses are parameters as well, so that nothing is assumed of the way they
  round: the comparison \<^verbatim>\<open><\<close>, the sum, the product, the quotient, and the conversion of
  a \<^verbatim>\<open>uint64_t\<close> to a double (of the operand of a mixed operation).
\<close>

type_synonym 'g rand64 = "'g \<Rightarrow> u64 \<Rightarrow> u64 \<times> 'g"
type_synonym ('g, 'd) randdbl = "'g \<Rightarrow> 'd \<times> 'g"

record 'd double_arith =
  dbl_less :: "'d \<Rightarrow> 'd \<Rightarrow> bool"
  dbl_plus :: "'d \<Rightarrow> 'd \<Rightarrow> 'd"
  dbl_times :: "'d \<Rightarrow> 'd \<Rightarrow> 'd"
  dbl_divide :: "'d \<Rightarrow> 'd \<Rightarrow> 'd"
  dbl_of_u64 :: "u64 \<Rightarrow> 'd"

definition rand64_in_range :: "'g rand64 \<Rightarrow> bool" where
  "rand64_in_range rand64 \<longleftrightarrow> (\<forall>g N. 0 < N \<longrightarrow> fst (rand64 g N) < N)"

datatype Distribution = DistrIn | DistrOut

text \<open>The constant members of \<^verbatim>\<open>class ModelBBCR\<close>.\<close>

record 'd BBCR_config =
  number_of_edges :: u64
  alpha :: 'd
  beta :: 'd
  degree_offset_in :: 'd
  degree_offset_out :: 'd

text \<open>
  The mutable members: \<^verbatim>\<open>_vertex_id\<close>, \<^verbatim>\<open>_token_id\<close>, the tokens pushed into
  \<^verbatim>\<open>_sorter\<close> in the order of the pushes, and the state of the random sources.
\<close>

record 'g ModelBBCR =
  vertex_id :: u64
  token_id_next :: u64
  sorter :: "Token64 list"
  rnd :: 'g

text \<open>
  The test \<^verbatim>\<open>_randdbl() < ((_vertex_id*offset) / (_vertex_id*offset + _token_id/2))\<close> on the
  number \<open>u\<close> drawn, in the arithmetic of doubles. \<^verbatim>\<open>_token_id/2\<close> is a division of
  integers; \<^verbatim>\<open>_vertex_id\<close> and the quotient \<^verbatim>\<open>_token_id/2\<close> are converted to doubles.
\<close>

definition below_uniform_threshold ::
  "'d double_arith \<Rightarrow> 'd \<Rightarrow> u64 \<Rightarrow> 'd \<Rightarrow> u64 \<Rightarrow> bool" where
  "below_uniform_threshold arith u v offset t =
     dbl_less arith u
       (dbl_divide arith
          (dbl_times arith (dbl_of_u64 arith v) offset)
          (dbl_plus arith (dbl_times arith (dbl_of_u64 arith v) offset)
                          (dbl_of_u64 arith (t div 2))))"

text \<open>
  \<^verbatim>\<open>if (distr == DistrOut) rand_token &= ~1llu;  // sample from even positions
  else rand_token |= 1llu;                        // odd positions\<close>
\<close>

definition pa_position :: "Distribution \<Rightarrow> u64 \<Rightarrow> u64" where
  "pa_position distr rand_token =
     (if distr = DistrOut then rand_token AND NOT 1 else rand_token OR 1)"

text \<open>
  \<^verbatim>\<open>inline value_type _generate_random_token(Distribution distr) {
      value_type result;
      const double offset = (distr == DistrOut) ? _degree_offset_out : _degree_offset_in;
      if (offset > 0 && _randdbl() < (...)) {
          result = value_type(false, _token_id, _rand64(_vertex_id + 1));   // uniform selection
      } else {
          uint64_t rand_token = _rand64(_token_id & ~1llu);                 // pa selection
          ...
          result = value_type(true, rand_token, _token_id);
      }
      _token_id++;
      return result; }\<close>
  \<^verbatim>\<open>_randdbl()\<close> is called only when \<^verbatim>\<open>offset > 0\<close>, where the literal \<open>0\<close> is converted
  to a double.
\<close>

definition generate_random_token ::
  "'d double_arith \<Rightarrow> 'g rand64 \<Rightarrow> ('g, 'd) randdbl \<Rightarrow> 'd BBCR_config \<Rightarrow> Distribution
   \<Rightarrow> 'g ModelBBCR \<Rightarrow> Token64 \<times> 'g ModelBBCR" where
  "generate_random_token arith rand64 randdbl cfg distr st =
     (let offset = (if distr = DistrOut then degree_offset_out cfg else degree_offset_in cfg);
          (uniform, g1) =
             (if dbl_less arith (dbl_of_u64 arith 0) offset
              then (let (u, g) = randdbl (rnd st)
                    in (below_uniform_threshold arith u (vertex_id st) offset (token_id_next st),
                        g))
              else (False, rnd st))
      in if uniform
         then (let (r, g2) = rand64 g1 (vertex_id st + 1)
               in (Token False (token_id_next st) r,
                   st\<lparr>token_id_next := token_id_next st + 1, rnd := g2\<rparr>))
         else (let (r, g2) = rand64 g1 (token_id_next st AND NOT 1)
               in (Token True (pa_position distr r) (token_id_next st),
                   st\<lparr>token_id_next := token_id_next st + 1, rnd := g2\<rparr>)))"

text \<open>\<^verbatim>\<open>_sorter.push(value_type(false, _token_id++, _vertex_id));\<close>\<close>

definition push_link :: "'g ModelBBCR \<Rightarrow> 'g ModelBBCR" where
  "push_link st =
     st\<lparr>sorter := sorter st @ [Token False (token_id_next st) (vertex_id st)],
        token_id_next := token_id_next st + 1\<rparr>"

text \<open>\<^verbatim>\<open>_sorter.push(_generate_random_token(distr));\<close>\<close>

definition push_random ::
  "'d double_arith \<Rightarrow> 'g rand64 \<Rightarrow> ('g, 'd) randdbl \<Rightarrow> 'd BBCR_config \<Rightarrow> Distribution
   \<Rightarrow> 'g ModelBBCR \<Rightarrow> 'g ModelBBCR" where
  "push_random arith rand64 randdbl cfg distr st =
     (let (tok, st1) = generate_random_token arith rand64 randdbl cfg distr st
      in st1\<lparr>sorter := sorter st1 @ [tok]\<rparr>)"

text \<open>
  One iteration of the loop of \<^verbatim>\<open>_populate\<close> after \<^verbatim>\<open>double mode = _randdbl();\<close>:
  \<^verbatim>\<open>if (mode < _alpha) {
      _sorter.push(value_type(false, _token_id++, _vertex_id));
      _sorter.push(_generate_random_token(DistrIn));
      _vertex_id++;
  } else if (mode < _alpha + _beta) {
      _sorter.push(_generate_random_token(DistrOut));
      _sorter.push(_generate_random_token(DistrIn));
  } else {
      _sorter.push(_generate_random_token(DistrOut));
      _sorter.push(value_type(false, _token_id++, _vertex_id));
      _vertex_id++;
  }\<close>
\<close>

definition populate_step ::
  "'d double_arith \<Rightarrow> 'g rand64 \<Rightarrow> ('g, 'd) randdbl \<Rightarrow> 'd BBCR_config \<Rightarrow> 'd
   \<Rightarrow> 'g ModelBBCR \<Rightarrow> 'g ModelBBCR" where
  "populate_step arith rand64 randdbl cfg mode st =
     (if dbl_less arith mode (alpha cfg) then
        (let st1 = push_link st;
             st2 = push_random arith rand64 randdbl cfg DistrIn st1
         in st2\<lparr>vertex_id := vertex_id st2 + 1\<rparr>)
      else if dbl_less arith mode (dbl_plus arith (alpha cfg) (beta cfg)) then
        (let st1 = push_random arith rand64 randdbl cfg DistrOut st
         in push_random arith rand64 randdbl cfg DistrIn st1)
      else
        (let st1 = push_random arith rand64 randdbl cfg DistrOut st;
             st2 = push_link st1
         in st2\<lparr>vertex_id := vertex_id st2 + 1\<rparr>))"

datatype failure = AssertionFailed

text \<open>
  \<^verbatim>\<open>while(_token_id < max_token_id) {
      double mode = _randdbl();
      assert(!(_token_id & 1));     // an edge should always start at an even position
      ... }\<close>
  The counters are 64-bit words, so the loop is not a terminating recursion for every
  state: it is a partial function, \<open>None\<close> where the loop does not return.
\<close>

partial_function (option) populate_loop ::
  "'d double_arith \<Rightarrow> 'g rand64 \<Rightarrow> ('g, 'd) randdbl \<Rightarrow> 'd BBCR_config \<Rightarrow> u64 \<Rightarrow> 'g ModelBBCR
   \<Rightarrow> (failure + 'g ModelBBCR) option" where
  "populate_loop arith rand64 randdbl cfg max_token_id st =
     (if token_id_next st < max_token_id then
        (let (mode, g) = randdbl (rnd st) in
         if token_id_next st AND 1 \<noteq> 0 then Some (Inl AssertionFailed)
         else populate_loop arith rand64 randdbl cfg max_token_id
                (populate_step arith rand64 randdbl cfg mode (st\<lparr>rnd := g\<rparr>)))
      else Some (Inr st))"

text \<open>
  \<^verbatim>\<open>void _populate() { const uint64_t max_token_id = _token_id + 2*_number_of_edges; ... }\<close>
\<close>

definition populate ::
  "'d double_arith \<Rightarrow> 'g rand64 \<Rightarrow> ('g, 'd) randdbl \<Rightarrow> 'd BBCR_config \<Rightarrow> 'g ModelBBCR
   \<Rightarrow> (failure + 'g ModelBBCR) option" where
  "populate arith rand64 randdbl cfg st =
     populate_loop arith rand64 randdbl cfg (token_id_next st + 2 * number_of_edges cfg) st"

text \<open>
  The constructor \<^verbatim>\<open>ModelBBCR(number_of_edges, first_vertex_id, first_edge_id, alpha, beta,
  degree_offset_in, degree_offset_out, sorter_size)\<close> sets \<^verbatim>\<open>_vertex_id(first_vertex_id)\<close>,
  \<^verbatim>\<open>_token_id(2*first_edge_id)\<close> and calls \<^verbatim>\<open>_populate()\<close>. The final
  \<^verbatim>\<open>_sorter.sort()\<close> of the external sorter reorders the pushed tokens and is left out.
\<close>

definition ModelBBCR ::
  "'d double_arith \<Rightarrow> 'g rand64 \<Rightarrow> ('g, 'd) randdbl \<Rightarrow> 'g \<Rightarrow> 'd BBCR_config \<Rightarrow> u64 \<Rightarrow> u64
   \<Rightarrow> (failure + 'g ModelBBCR) option" where
  "ModelBBCR arith rand64 randdbl g0 cfg first_vertex_id first_edge_id =
     populate arith rand64 randdbl cfg
       \<lparr>vertex_id = first_vertex_id, token_id_next = 2 * first_edge_id, sorter = [], rnd = g0\<rparr>"

text \<open>
  The rounding the specification words for the in-distribution case: the position drawn,
  rounded down to the nearest odd index.
\<close>

definition spec_round_down_odd :: "u64 \<Rightarrow> u64" where
  "spec_round_down_odd r = (if r AND 1 \<noteq> 0 then r else r - 1)"

text \<open>
  The arithmetic of the real numbers, for the examples: on their numbers no operation of
  the arithmetic of doubles rounds, or the rounding does not change the comparison.
\<close>

definition real_arith :: "real double_arith" where
  "real_arith = \<lparr>dbl_less = (<), dbl_plus = (+), dbl_times = (*), dbl_divide = (/),
                 dbl_of_u64 = (\<lambda>w. real (unat w))\<rparr>"

section \<open>The sequential Barabasi-Albert pipeline (main\_ba.cpp)\<close>

text \<open>
  The counters of the pipeline are \<^verbatim>\<open>uint64_t\<close>. They are natural numbers here, and the
  tokens are \<open>nat Token\<close>; where the code subtracts, the wrap-around of the 64-bit
  subtraction is written out. The theorems about the pipeline bound the number of slots by
  \<open>2^63\<close>, the range of the token index, below which no other operation wraps.
\<close>

definition u64_sub :: "nat \<Rightarrow> nat \<Rightarrow> nat" where
  "u64_sub a b = (a + 2 ^ 64 - b) mod 2 ^ 64"

text \<open>
  \<^verbatim>\<open>RandomInteger<8>::randint(supremum)\<close> draws uniformly from \<open>[0, supremum)\<close> with a
  static library generator; as for the BBCR generator the generator is a parameter that
  maps its state and the supremum to the number drawn and the next state.
\<close>

type_synonym 'g randint = "'g \<Rightarrow> nat \<Rightarrow> nat \<times> 'g"

definition randint_in_range :: "'g randint \<Rightarrow> bool" where
  "randint_in_range randint \<longleftrightarrow> (\<forall>g N. 0 < N \<longrightarrow> fst (randint g N) < N)"

subsection \<open>InitialCircle.hpp\<close>

record InitialCircle =
  number_of_tokens :: nat
  first_vertex_id :: nat
  current_token_id :: nat
  ic_current_token :: "nat Token"

text \<open>
  \<^verbatim>\<open>InitialCircle & operator++() {
      if (UNLIKELY(_current_token_id >= _number_of_tokens - 1)) {
         _current_token = Token64(false, _current_token_id, _first_vertex_id);
      } else {
         _current_token = Token64(false, _current_token_id,
                                  _first_vertex_id + (_current_token_id + 1) / 2);
      }
      _current_token_id++;
      return *this; }\<close>
\<close>

definition ic_advance :: "InitialCircle \<Rightarrow> InitialCircle" where
  "ic_advance s =
     (if current_token_id s \<ge> u64_sub (number_of_tokens s) 1
      then s\<lparr>ic_current_token := Token False (current_token_id s) (first_vertex_id s),
             current_token_id := current_token_id s + 1\<rparr>
      else s\<lparr>ic_current_token := Token False (current_token_id s)
                                     (first_vertex_id s + (current_token_id s + 1) div 2),
             current_token_id := current_token_id s + 1\<rparr>)"

text \<open>
  \<^verbatim>\<open>explicit InitialCircle(uint64_t number_of_vertices, uint64_t first_id = 0)
      : _number_of_tokens(2*number_of_vertices), _first_vertex_id(first_id), _current_token_id(0)
  {++(*this);}\<close>
  \<^verbatim>\<open>_current_token\<close> is not initialised; the first \<^verbatim>\<open>++\<close> overwrites it.
\<close>

definition InitialCircle :: "nat \<Rightarrow> nat \<Rightarrow> InitialCircle" where
  "InitialCircle number_of_vertices first_id =
     ic_advance \<lparr>number_of_tokens = 2 * number_of_vertices, first_vertex_id = first_id,
                 current_token_id = 0, ic_current_token = Token False 0 0\<rparr>"


text \<open>\<^verbatim>\<open>uint64_t numberOfEdges() const { return _number_of_tokens / 2; }\<close>\<close>

definition numberOfEdges :: "InitialCircle \<Rightarrow> nat" where
  "numberOfEdges s = number_of_tokens s div 2"




subsection \<open>RegularVertexTokenStream.hpp\<close>

record RegularVertexTokenStream =
  vertex_end :: nat
  rv_edges_per_vertex :: nat
  rv_current_vertex :: nat
  current_edge_no :: nat
  edge_list_idx :: nat
  rv_current_token :: "nat Token"
  rv_empty :: bool

text \<open>
  \<^verbatim>\<open>RegularVertexTokenStream& operator++() {
      _empty = _empty || (_current_vertex >= _vertex_end);
      _current_token = Token64(false, _edge_list_idx, _current_vertex );
      _edge_list_idx += 2;
      if (++_current_edge >= _edges_per_vertex) { _current_vertex++; _current_edge = 0; }
      return *this; }\<close>
\<close>

definition rv_advance :: "RegularVertexTokenStream \<Rightarrow> RegularVertexTokenStream" where
  "rv_advance s =
     (let s1 = s\<lparr>rv_empty := rv_empty s \<or> rv_current_vertex s \<ge> vertex_end s,
                  rv_current_token := Token False (edge_list_idx s) (rv_current_vertex s),
                  edge_list_idx := edge_list_idx s + 2\<rparr>
      in if current_edge_no s1 + 1 \<ge> rv_edges_per_vertex s1
         then s1\<lparr>rv_current_vertex := rv_current_vertex s1 + 1, current_edge_no := 0\<rparr>
         else s1\<lparr>current_edge_no := current_edge_no s1 + 1\<rparr>)"

text \<open>
  \<^verbatim>\<open>RegularVertexTokenStream(uint64_t first_vertex, uint64_t first_edge_list_idx,
                           uint64_t number_of_vertices, uint64_t edges_per_vertex)
      : _vertex_end(first_vertex + number_of_vertices), _edges_per_vertex(edges_per_vertex)
      , _current_vertex(first_vertex), _current_edge(0), _edge_list_idx(first_edge_list_idx)
      , _empty(false)
  {++(*this);}\<close>
\<close>

definition RegularVertexTokenStream :: "nat \<Rightarrow> nat \<Rightarrow> nat \<Rightarrow> nat \<Rightarrow> RegularVertexTokenStream" where
  "RegularVertexTokenStream first_vertex first_edge_list_idx number_of_vertices edges_per_vertex =
     rv_advance \<lparr>vertex_end = first_vertex + number_of_vertices,
                 rv_edges_per_vertex = edges_per_vertex, rv_current_vertex = first_vertex,
                 current_edge_no = 0, edge_list_idx = first_edge_list_idx,
                 rv_current_token = Token False 0 0, rv_empty = False\<rparr>"



subsection \<open>The random query tokens\<close>

text \<open>
  The inner loop of main\_ba.cpp, for one vertex:
  \<^verbatim>\<open>for(uint64_t edge = 0; edge < edges_per_vertex; edge++) {
      Token64 token(true, RandomInteger<8>::randint(this_weight), idx);
      randomTokens.push(token);
      this_weight += 2 * edge_dependencies;
      idx += 2;
  }\<close>
  The state is \<open>(this_weight, idx, randomTokens, generator)\<close>.
\<close>

function ba_edge_loop ::
  "'g randint \<Rightarrow> nat \<Rightarrow> bool \<Rightarrow> nat \<Rightarrow> nat \<times> nat \<times> nat Token list \<times> 'g
   \<Rightarrow> nat \<times> nat \<times> nat Token list \<times> 'g" where
  "ba_edge_loop randint edges_per_vertex edge_dependencies edge (this_weight, idx, tokens, g) =
     (if edge < edges_per_vertex
      then (let (r, g') = randint g this_weight
            in ba_edge_loop randint edges_per_vertex edge_dependencies (edge + 1)
                 (this_weight + 2 * of_bool edge_dependencies, idx + 2,
                  tokens @ [Token True r idx], g'))
      else (this_weight, idx, tokens, g))"
  by pat_completeness auto
termination
  by (relation "measure (\<lambda>(randint, m, d, edge, s). m - edge)") auto

declare ba_edge_loop.simps [simp del]

text \<open>
  The outer loop:
  \<^verbatim>\<open>for(uint64_t vertex = 0; vertex < number_of_vertices; vertex++) {
      uint64_t this_weight = weight;
      ... inner loop ...
      weight += 2 * edges_per_vertex;
  }\<close>
  The state is \<open>(weight, idx, randomTokens, generator)\<close>.
\<close>

function ba_vertex_loop ::
  "'g randint \<Rightarrow> nat \<Rightarrow> nat \<Rightarrow> bool \<Rightarrow> nat \<Rightarrow> nat \<times> nat \<times> nat Token list \<times> 'g
   \<Rightarrow> nat \<times> nat \<times> nat Token list \<times> 'g" where
  "ba_vertex_loop randint number_of_vertices edges_per_vertex edge_dependencies vertex
       (weight, idx, tokens, g) =
     (if vertex < number_of_vertices
      then (let (this_weight, idx', tokens', g') =
                  ba_edge_loop randint edges_per_vertex edge_dependencies 0 (weight, idx, tokens, g)
            in ba_vertex_loop randint number_of_vertices edges_per_vertex edge_dependencies
                 (vertex + 1) (weight + 2 * edges_per_vertex, idx', tokens', g'))
      else (weight, idx, tokens, g))"
  by pat_completeness auto
termination
  by (relation "measure (\<lambda>(randint, n, m, d, vertex, s). n - vertex)") auto

declare ba_vertex_loop.simps [simp del]

text \<open>
  \<^verbatim>\<open>uint64_t weight = seedTokens.numberOfEdges() * 2;
  uint64_t idx = weight + 1;
  for (...) {...}\<close>
  The tokens pushed into \<^verbatim>\<open>randomTokens\<close>, in the order of the pushes.
\<close>

definition ba_random_tokens ::
  "'g randint \<Rightarrow> 'g \<Rightarrow> InitialCircle \<Rightarrow> nat \<Rightarrow> nat \<Rightarrow> bool \<Rightarrow> nat Token list" where
  "ba_random_tokens randint g seedTokens number_of_vertices edges_per_vertex edge_dependencies =
     (let weight = numberOfEdges seedTokens * 2;
          idx = weight + 1;
          (weight', idx', tokens, g') =
             ba_vertex_loop randint number_of_vertices edges_per_vertex edge_dependencies 0
               (weight, idx, [], g)
      in tokens)"

section \<open>The request filler of the parallel engine (main\_pba.cpp)\<close>

text \<open>
  \<^verbatim>\<open>class RAGPath { const EdgeId _number_of_edges; ...
      Node operator()(const EdgeId & idx) const { return idx / 2 + (idx & 1); }
      Node maxVertexId() const { return _number_of_edges; }
      EdgeId numberOfEdges() const { return _number_of_edges; } };\<close>
\<close>

record RAGPath =
  rag_number_of_edges :: nat

definition rag_node :: "RAGPath \<Rightarrow> nat \<Rightarrow> nat" where
  "rag_node p idx = idx div 2 + idx mod 2"

definition rag_maxVertexId :: "RAGPath \<Rightarrow> nat" where
  "rag_maxVertexId p = rag_number_of_edges p"

definition rag_numberOfEdges :: "RAGPath \<Rightarrow> nat" where
  "rag_numberOfEdges p = rag_number_of_edges p"

text \<open>
  The body of the inner loop after \<^verbatim>\<open>auto r = rand(weight);\<close>, the token handed to
  \<^verbatim>\<open>mppq.bulk_push\<close>:
  \<^verbatim>\<open>if (UNLIKELY(r < seed_weight)) {
      mppq.bulk_push(TokenCompressed{false, idx, seed_graph(r)});
  } else if (r&1) {
      mppq.bulk_push(TokenCompressed{false, idx,
                     (r-seed_weight)/2/edges_per_vertex + seed_graph.maxVertexId() + 1});
  } else {
      mppq.bulk_push(TokenCompressed{true, (r-seed_weight) / 2, idx});
  }\<close>
  The token is given by the three arguments of the \<open>TokenCompressed\<close> constructor.
\<close>

definition pba_request :: "RAGPath \<Rightarrow> nat \<Rightarrow> nat \<Rightarrow> nat \<Rightarrow> nat \<Rightarrow> nat PToken" where
  "pba_request seed_graph seed_weight edges_per_vertex idx r =
     (if r < seed_weight
      then \<lparr>query = False, index = idx, pvalue = rag_node seed_graph r\<rparr>
      else if odd r
      then \<lparr>query = False, index = idx,
            pvalue = u64_sub r seed_weight div 2 div edges_per_vertex
                     + rag_maxVertexId seed_graph + 1\<rparr>
      else \<lparr>query = True, index = u64_sub r seed_weight div 2, pvalue = idx\<rparr>)"

text \<open>
  The threads of the parallel loop have a generator each, seeded by the thread number, and
  share the iterations between them. The number drawn in the iteration for \<open>vertex\<close> and
  \<open>edge\<close> is given by a function \<open>draw vertex edge weight\<close>, which covers every schedule.
  The tokens are listed in the order of the iterations.

  \<^verbatim>\<open>for (uint64_t edge = 0; edge < edges_per_vertex; edge++, idx++) {
      auto r = rand(weight);
      ...
      weight += 2 * edge_dependencies;
  }\<close>
  The state is \<open>(weight, idx, tokens)\<close>.
\<close>

function pba_edge_loop ::
  "(nat \<Rightarrow> nat \<Rightarrow> nat \<Rightarrow> nat) \<Rightarrow> RAGPath \<Rightarrow> nat \<Rightarrow> nat \<Rightarrow> bool \<Rightarrow> nat \<Rightarrow> nat
   \<Rightarrow> nat \<times> nat \<times> nat PToken list \<Rightarrow> nat \<times> nat \<times> nat PToken list" where
  "pba_edge_loop draw seed_graph seed_weight edges_per_vertex edge_dependencies vertex edge
       (weight, idx, tokens) =
     (if edge < edges_per_vertex
      then (let r = draw vertex edge weight
            in pba_edge_loop draw seed_graph seed_weight edges_per_vertex edge_dependencies
                 vertex (edge + 1)
                 (weight + 2 * of_bool edge_dependencies, idx + 1,
                  tokens @ [pba_request seed_graph seed_weight edges_per_vertex idx r]))
      else (weight, idx, tokens))"
  by pat_completeness auto
termination
  by (relation "measure (\<lambda>(draw, sg, sw, m, d, vertex, edge, s). m - edge)") auto

declare pba_edge_loop.simps [simp del]

text \<open>
  \<^verbatim>\<open>for (uint64_t vertex = 0; vertex < number_of_vertices; vertex++) {
      uint64_t weight = seed_weight + 2 * edges_per_vertex * vertex;
      uint64_t idx = edges_per_vertex * vertex;
      ... inner loop ...
  }\<close>
\<close>

function pba_vertex_loop ::
  "(nat \<Rightarrow> nat \<Rightarrow> nat \<Rightarrow> nat) \<Rightarrow> RAGPath \<Rightarrow> nat \<Rightarrow> nat \<Rightarrow> nat \<Rightarrow> bool \<Rightarrow> nat
   \<Rightarrow> nat PToken list \<Rightarrow> nat PToken list" where
  "pba_vertex_loop draw seed_graph seed_weight number_of_vertices edges_per_vertex
       edge_dependencies vertex tokens =
     (if vertex < number_of_vertices
      then (let weight = seed_weight + 2 * edges_per_vertex * vertex;
                idx = edges_per_vertex * vertex;
                (weight', idx', tokens') =
                   pba_edge_loop draw seed_graph seed_weight edges_per_vertex edge_dependencies
                     vertex 0 (weight, idx, tokens)
            in pba_vertex_loop draw seed_graph seed_weight number_of_vertices edges_per_vertex
                 edge_dependencies (vertex + 1) tokens')
      else tokens)"
  by pat_completeness auto
termination
  by (relation "measure (\<lambda>(draw, sg, sw, n, m, d, vertex, s). n - vertex)") auto

declare pba_vertex_loop.simps [simp del]

text \<open>
  \<^verbatim>\<open>RAGPath seed_graph(1000 * edges_per_vertex);
  const EdgeId seed_weight = 2*seed_graph.numberOfEdges();\<close>
  The tokens pushed between \<^verbatim>\<open>bulk_push_begin\<close> and \<^verbatim>\<open>bulk_push_end\<close>.
\<close>

definition pba_requests ::
  "(nat \<Rightarrow> nat \<Rightarrow> nat \<Rightarrow> nat) \<Rightarrow> nat \<Rightarrow> nat \<Rightarrow> bool \<Rightarrow> nat PToken list" where
  "pba_requests draw number_of_vertices edges_per_vertex edge_dependencies =
     (let seed_graph = \<lparr>rag_number_of_edges = 1000 * edges_per_vertex\<rparr>;
          seed_weight = 2 * rag_numberOfEdges seed_graph
      in pba_vertex_loop draw seed_graph seed_weight number_of_vertices edges_per_vertex
           edge_dependencies 0 [])"




section \<open>Auxiliary functions of the statements\<close>

text \<open>
  The numbers a generator draws for a list of suprema, one after the other, and the state
  of the generator afterwards.
\<close>

fun draws :: "'g randint \<Rightarrow> nat list \<Rightarrow> 'g \<Rightarrow> nat list \<times> 'g" where
  "draws randint [] g = ([], g)"
| "draws randint (w # ws) g =
     (let (r, g1) = randint g w; (rs, g2) = draws randint ws g1 in (r # rs, g2))"

text \<open>
  The weight at the draw for the \<open>k\<close>-th edge overall, \<open>k = v\<cdot>m + j\<close>, above a seed of
  \<open>seed_weight\<close> edge-list positions: \<open>seed_weight + 2\<cdot>m\<cdot>v + 2\<cdot>j\<cdot>\<delta>\<close>.
\<close>

definition edge_weight :: "nat \<Rightarrow> nat \<Rightarrow> bool \<Rightarrow> nat \<Rightarrow> nat" where
  "edge_weight seed_weight m edge_dependencies k =
     seed_weight + 2 * m * (k div m) + 2 * of_bool edge_dependencies * (k mod m)"



text \<open>The Query tokens for a list of numbers drawn, at the slots \<open>i\<close>, \<open>i + 2\<close>, \<open>i + 4\<close>, ...\<close>

fun query_tokens :: "nat \<Rightarrow> nat list \<Rightarrow> nat Token list" where
  "query_tokens i [] = []"
| "query_tokens i (r # rs) = Token True r i # query_tokens (i + 2) rs"

text \<open>Every Query of a list of tokens asks for a slot before the slot of its answer.\<close>

definition good_queries :: "'a::{semiring_bit_operations, linorder} Token list \<Rightarrow> bool" where
  "good_queries ts \<longleftrightarrow> (\<forall>t \<in> set ts. token_query t \<longrightarrow> token_id t < token_value t)"

text \<open>The contract of the generator of the parallel filler: a draw is below its supremum.\<close>

definition draw_in_range :: "(nat \<Rightarrow> nat \<Rightarrow> nat \<Rightarrow> nat) \<Rightarrow> bool" where
  "draw_in_range draw \<longleftrightarrow> (\<forall>v j w. 0 < w \<longrightarrow> draw v j w < w)"

section \<open>The processing of the token sequence (ProcessTokenSequence.hpp)\<close>

text \<open>
  The order of the tokens, \<^verbatim>\<open>Token::operator<\<close>, is the lexicographic order of the pair
  \<open>(_id, _value)\<close>; the sorter and the priority queue of the library are given by this key.
\<close>

definition token_key :: "'a Token \<Rightarrow> 'a \<times> 'a" where
  "token_key t = (id_packed t, value_field t)"


text \<open>
  The priority queue of the library, with \<^verbatim>\<open>Token64::ComparatorDesc\<close>, has the smallest
  token on top. It is the list of its tokens in ascending order: \<^verbatim>\<open>top()\<close> is the head,
  \<^verbatim>\<open>pop()\<close> removes the head, \<^verbatim>\<open>push\<close> inserts.
\<close>

definition pq_push :: "nat Token \<Rightarrow> nat Token list \<Rightarrow> nat Token list" where
  "pq_push t pq = insort_key token_key t pq"

definition pq_top :: "nat Token list \<Rightarrow> nat Token" where
  "pq_top pq = hd pq"

definition pq_pop :: "nat Token list \<Rightarrow> nat Token list" where
  "pq_pop pq = tl pq"

text \<open>
  The members of \<^verbatim>\<open>class ProcessTokenSequence\<close>; the input stream is the list of the tokens
  not read yet.
\<close>

record ProcessTokenSequence =
  pts_stream :: "nat Token list"
  prio_queue :: "nat Token list"
  current_idx :: nat
  pts_empty :: bool
  current_vertex :: nat

text \<open>
  \<^verbatim>\<open>bool _processToken(const Token & token) {
      std::cout << token << std::endl;
      if (token.query()) {
         assert(_current_idx -1 == token.id());
         Token64 new_token(false, token.value(), _current_vertex);
         _prio_queue.push(new_token);
         return true;
      } else {
         _current_vertex = token.value();
         _current_idx++;
         return false;
      }
  }\<close>
  The result is the failed assertion, or the value returned and the state; the line
  printed to \<^verbatim>\<open>std::cout\<close> is left out.
\<close>

definition processToken ::
  "nat Token \<Rightarrow> ProcessTokenSequence \<Rightarrow> failure + bool \<times> ProcessTokenSequence" where
  "processToken token s =
     (if token_query token
      then (if u64_sub (current_idx s) 1 = token_id token
            then Inr (True, s\<lparr>prio_queue :=
                                pq_push (Token False (token_value token) (current_vertex s))
                                        (prio_queue s)\<rparr>)
            else Inl AssertionFailed)
      else Inr (False, s\<lparr>current_vertex := token_value token,
                         current_idx := current_idx s + 1\<rparr>))"

text \<open>
  \<^verbatim>\<open>repeat = _processToken(*_stream); ++_stream;\<close> and
  \<^verbatim>\<open>repeat = _processToken(_prio_queue.top()); _prio_queue.pop();\<close>
\<close>

definition process_from_stream ::
  "ProcessTokenSequence \<Rightarrow> failure + bool \<times> ProcessTokenSequence" where
  "process_from_stream s =
     (case processToken (hd (pts_stream s)) s of
        Inl e \<Rightarrow> Inl e
      | Inr (repeat, s') \<Rightarrow> Inr (repeat, s'\<lparr>pts_stream := tl (pts_stream s')\<rparr>))"

definition process_from_queue ::
  "ProcessTokenSequence \<Rightarrow> failure + bool \<times> ProcessTokenSequence" where
  "process_from_queue s =
     (case processToken (pq_top (prio_queue s)) s of
        Inl e \<Rightarrow> Inl e
      | Inr (repeat, s') \<Rightarrow> Inr (repeat, s'\<lparr>prio_queue := pq_pop (prio_queue s')\<rparr>))"

text \<open>
  The body of the loop of \<^verbatim>\<open>operator++\<close>:
  \<^verbatim>\<open>if (_prio_queue.empty() && _stream.empty()) { _empty = true; repeat = false; }
  else if (_prio_queue.empty()) { repeat = _processToken(*_stream); ++_stream; }
  else if (_stream.empty()) { repeat = _processToken(_prio_queue.top()); _prio_queue.pop(); }
  else if (*_stream < _prio_queue.top()) { repeat = _processToken(*_stream); ++_stream; }
  else { repeat = _processToken(_prio_queue.top()); _prio_queue.pop(); }\<close>
\<close>

definition pts_step :: "ProcessTokenSequence \<Rightarrow> failure + bool \<times> ProcessTokenSequence" where
  "pts_step s =
     (if prio_queue s = [] \<and> pts_stream s = [] then Inr (False, s\<lparr>pts_empty := True\<rparr>)
      else if prio_queue s = [] then process_from_stream s
      else if pts_stream s = [] then process_from_queue s
      else if token_less (hd (pts_stream s)) (pq_top (prio_queue s)) then process_from_stream s
      else process_from_queue s)"

text \<open>
  \<^verbatim>\<open>ProcessTokenSequence & operator++() {
      bool repeat = true;
      while(repeat) { ... }
      return *this; }\<close>
  The loop has no bound of its own: \<open>None\<close> is the loop that does not end.
\<close>

partial_function (option) pts_advance ::
  "ProcessTokenSequence \<Rightarrow> (failure + ProcessTokenSequence) option" where
  "pts_advance s =
     (case pts_step s of
        Inl e \<Rightarrow> Some (Inl e)
      | Inr (repeat, s') \<Rightarrow> if repeat then pts_advance s' else Some (Inr s'))"

text \<open>
  \<^verbatim>\<open>ProcessTokenSequence(InputStream& stream, PriorityQueue & pq)
      : _stream(stream), _prio_queue(pq), _current_idx(0), _empty(false)
  {++(*this);}\<close>
  \<^verbatim>\<open>_current_vertex\<close> is not initialised; it is 0 here.
\<close>

definition ProcessTokenSequence ::
  "nat Token list \<Rightarrow> nat Token list \<Rightarrow> (failure + ProcessTokenSequence) option" where
  "ProcessTokenSequence stream pq =
     pts_advance \<lparr>pts_stream = stream, prio_queue = pq, current_idx = 0, pts_empty = False,
                  current_vertex = 0\<rparr>"


section \<open>The output of the edges (EdgeSorter.hpp, EdgeWriter.hpp)\<close>








section \<open>The run of the sequential generator (main\_ba.cpp)\<close>




section \<open>Auxiliary notions of the proofs about the pipeline\<close>

text \<open>
  The edge-list position a token is going to fill: a Link fills its own position, a Query
  the position of its answer, the Link pushed into the priority queue when it is processed.
\<close>

definition slot :: "nat Token \<Rightarrow> nat" where
  "slot t = (if token_query t then token_value t else token_id t)"


section \<open>Word facts used for the packed index\<close>

lemma unat_token_id: "unat (token_id (t::Token64)) = unat (id_packed t) div 2"
  unfolding token_id_def unat_drop_bit_eq by (simp add: drop_bit_eq_div)

lemma token_query_odd: "token_query (t::Token64) \<longleftrightarrow> odd (unat (id_packed t))"
  apply (simp add: token_query_def and_one_eq mod_2_eq_odd)
  apply (metis even_of_nat mult.right_neutral unsigned_1 word_arith_nat_mult)
  done

lemma unat_packed:
  fixes idx :: u64
  shows "unat (id_packed (Token q idx v)) = (2 * unat idx + of_bool q) mod 2 ^ 64"
  apply (simp add: Token_def unat_word_ariths)
  apply (simp add: mod_Suc_eq mult.commute)
  done

lemma packed_mod: "(2 * n + of_bool q) mod (2 * k) = 2 * (n mod k) + (of_bool q :: nat)"
proof -
  have "(2 * n + of_bool q) mod (2 * k)
        = 2 * ((2 * n + of_bool q) div 2 mod k) + (2 * n + of_bool q) mod 2"
    by (rule mod_mult2_eq)
  moreover have "(2 * n + of_bool q) div 2 = n" by (cases q) simp_all
  moreover have "(2 * n + of_bool q) mod 2 = (of_bool q :: nat)" by (cases q) simp_all
  ultimately show ?thesis by simp
qed

lemma token_id_Token:
  fixes idx :: u64
  shows "unat (token_id (Token q idx v)) = unat idx mod 2 ^ 63"
proof -
  have "(2 * unat idx + of_bool q) mod (2 * 2 ^ 63) = 2 * (unat idx mod 2 ^ 63) + (of_bool q :: nat)"
    by (rule packed_mod)
  then have "((2 * unat idx + of_bool q) mod 2 ^ 64) div 2 = unat idx mod (2 ^ 63::nat)"
    by simp
  then show ?thesis
    by (simp only: unat_token_id unat_packed)
qed

lemma token_query_Token:
  fixes idx :: u64
  shows "token_query (Token q idx v) = q"
proof -
  have "(2 * unat idx + of_bool q) mod (2 * 2 ^ 63) = 2 * (unat idx mod 2 ^ 63) + (of_bool q :: nat)"
    by (rule packed_mod)
  then have "odd ((2 * unat idx + of_bool q) mod (2 ^ 64::nat)) = q"
    by simp
  then show ?thesis
    by (simp only: token_query_odd unat_packed)
qed

lemma token_value_Token: "token_value (Token q idx v) = v"
  by (simp add: token_value_def Token_def)

text \<open>
  Claim C10. For every flag \<open>q\<close>, index \<open>idx\<close> and value \<open>v\<close> of \<open>Token64\<close>, the
  token \<open>Token q idx v\<close> gives back \<open>query() = q\<close>, \<open>id() = idx\<close> and
  \<open>value() = v\<close> exactly when \<open>idx < 2^63\<close>: the packing \<open>(id << 1) + q\<close> is lossless
  under that precondition and under no weaker one.
\<close>

theorem token_roundtrip:
  fixes idx v :: u64
  shows "(token_query (Token q idx v) = q \<and> token_id (Token q idx v) = idx
           \<and> token_value (Token q idx v) = v) \<longleftrightarrow> idx < 2 ^ 63"
proof -
  have "token_id (Token q idx v) = idx \<longleftrightarrow> unat idx mod 2 ^ 63 = unat idx"
    by (simp add: word_unat_eq_iff token_id_Token)
  also have "\<dots> \<longleftrightarrow> unat idx < 2 ^ 63"
    by (simp add: mod_eq_self_iff_div_eq_0 div_eq_0_iff)
  also have "\<dots> \<longleftrightarrow> idx < 2 ^ 63"
    by (simp add: word_less_nat_alt)
  finally show ?thesis
    by (simp add: token_query_Token token_value_Token)
qed

text \<open>
  Claim C6. On \<open>Token64\<close> the comparison \<open>operator<\<close> is the lexicographic order by
  (idx, kind, value), with a Link before a Query at the same idx: for all tokens \<open>a\<close>
  and \<open>b\<close>, \<open>a < b\<close> holds iff the triple of \<open>a\<close> is lexicographically smaller.
\<close>

theorem token_less_lexicographic:
  fixes a b :: Token64
  shows "token_less a b \<longleftrightarrow> spec_token_less a b"
proof -
  define x y where "x = unat (id_packed a)" and "y = unat (id_packed b)"
  have eq: "id_packed a = id_packed b \<longleftrightarrow> x = y"
    by (simp add: x_def y_def word_unat_eq_iff)
  have lt: "id_packed a < id_packed b \<longleftrightarrow> x < y"
    by (simp add: x_def y_def word_less_nat_alt)
  have ideq: "token_id a = token_id b \<longleftrightarrow> x div 2 = y div 2"
    by (simp add: x_def y_def word_unat_eq_iff unat_token_id)
  have idlt: "token_id a < token_id b \<longleftrightarrow> x div 2 < y div 2"
    by (simp add: x_def y_def word_less_nat_alt unat_token_id)
  have qa: "token_query a \<longleftrightarrow> odd x" and qb: "token_query b \<longleftrightarrow> odd y"
    by (simp_all add: x_def y_def token_query_odd)
  have a1: "x < y \<longleftrightarrow> x div 2 < y div 2 \<or> (x div 2 = y div 2 \<and> even x \<and> odd y)"
    by presburger
  have a2: "x = y \<longleftrightarrow> x div 2 = y div 2 \<and> (odd x \<longleftrightarrow> odd y)"
    by presburger
  show ?thesis
    unfolding token_less_def spec_token_less_def token_value_def eq lt ideq idlt qa qb
    using a1 a2 by blast
qed

section \<open>Compressed tokens: range check and round trip\<close>

lemma tc_mask_eq: "tc_mask = Bit_Operations.mask 47"
  by (simp add: tc_mask_def mask_eq_exp_minus_1)

lemma and_tc_mask_iff: "(x AND tc_mask = x) \<longleftrightarrow> x < 2 ^ 47" for x :: u64
  by (simp add: tc_mask_eq mask_eq_iff word_less_alt)

lemma bit_above_47: "\<not> bit x n" if "x < 2 ^ 47" "47 \<le> n" for x :: u64
proof
  assume b: "bit x n"
  have "x AND Bit_Operations.mask 47 = x" using that(1) by (rule less_mask_eq)
  then have "bit (x AND Bit_Operations.mask 47) n" using b by simp
  then show False using that(2) by (simp add: bit_and_iff bit_mask_iff)
qed

lemma bit_below_47: "n < 47" if "x < 2 ^ 47" "bit x n" for x :: u64
  using bit_above_47[OF that(1), of n] that(2) by (cases "n < 47") simp_all

lemma TokenCompressed_None_iff:
  "TokenCompressed q i v = None \<longleftrightarrow> 2 ^ 47 \<le> i \<or> 2 ^ 47 \<le> v"
  by (auto simp add: TokenCompressed_def and_tc_mask_iff not_less)

lemma decompress_index:
  assumes "i < 2 ^ 47" "v < 2 ^ 47"
  shows "drop_bit 17 (push_bit 17 i OR push_bit 16 (of_bool q) OR drop_bit 32 v) = (i::u64)"
  apply (rule bit_word_eqI)
  apply (auto simp add: bit_simps bit_above_47[OF assms(1)] bit_above_47[OF assms(2)]
              dest: bit_below_47[OF assms(1)])
  done

lemma decompress_query:
  assumes "i < 2 ^ 47" "v < 2 ^ 47"
  shows "((push_bit 17 i OR push_bit 16 (of_bool q) OR drop_bit 32 v) AND push_bit 16 1 \<noteq> (0::u64)) = q"
proof -
  have "bit (push_bit 17 i OR push_bit 16 (of_bool q) OR drop_bit 32 v) 16 = q"
    by (simp add: bit_simps bit_above_47[OF assms(2)])
  then show ?thesis
    by (simp only: bit_iff_and_push_bit_not_eq_0)
qed

lemma decompress_value:
  assumes "i < 2 ^ 47" "v < 2 ^ 47"
  shows "push_bit 32 ((push_bit 17 i OR push_bit 16 (of_bool q) OR drop_bit 32 v) AND 0x7FFF)
           OR ucast (ucast v :: 32 word) = (v::u64)"
proof -
  have m: "(0x7FFF :: u64) = Bit_Operations.mask 15"
    by (simp add: mask_eq_exp_minus_1)
  show ?thesis
    unfolding m
    apply (rule bit_word_eqI)
    apply (auto simp add: bit_simps bit_above_47[OF assms(2)]
              dest: bit_below_47[OF assms(2)])
    done
qed

lemma decompress_TokenCompressed:
  assumes "TokenCompressed q i v = Some t"
  shows "decompress t = \<lparr>query = q, index = i, pvalue = v\<rparr>"
proof -
  from assms have ok: "i < 2 ^ 47" "v < 2 ^ 47"
    using TokenCompressed_None_iff[of q i v] by (auto simp add: not_le)
  from assms ok have t: "t = \<lparr>data1 = push_bit 17 i OR push_bit 16 (of_bool q) OR drop_bit 32 v,
                               data2 = ucast v\<rparr>"
    by (simp add: TokenCompressed_def and_tc_mask_iff)
  show ?thesis
    unfolding t decompress_def is_query_def
    using decompress_index[OF ok, of q] decompress_query[OF ok, of q] decompress_value[OF ok, of q]
    by simp
qed

text \<open>
  Claim C7, as stated, fails for the 64-bit token: constructing \<open>Token64\<close> with an index
  at the top of the packed range does not trap. The constructor has no failure branch; the
  index \<open>2^63\<close> is silently stored as \<open>0\<close> and the token equals the one built from index 0.
\<close>

theorem Token64_top_index_not_checked:
  "token_id (Token False (2 ^ 63) 7 :: Token64) = 0
   \<and> (Token False (2 ^ 63) 7 :: Token64) = Token False 0 7"
  by (simp add: token_id_def Token_def)

text \<open>
  Claim C7, amended. Constructing a compressed 80-bit token traps (a failed assertion)
  exactly when the index or the value does not fit into 47 bits, and a constructed token
  decompresses to the arguments it was built from. The 64-bit \<open>Token\<close> constructor has no
  range check: it always yields a token, whose index is the argument modulo \<open>2^63\<close>.
\<close>

theorem token_construction_range:
  "(TokenCompressed q i v = None \<longleftrightarrow> 2 ^ 47 \<le> i \<or> 2 ^ 47 \<le> v)
   \<and> (\<forall>t. TokenCompressed q i v = Some t \<longrightarrow> decompress t = \<lparr>query = q, index = i, pvalue = v\<rparr>)
   \<and> unat (token_id (Token q i v :: Token64)) = unat i mod 2 ^ 63"
  using TokenCompressed_None_iff[of q i v] decompress_TokenCompressed[of q i v]
        token_id_Token[of q i v]
  by blast

theorem token_construction_range_witness:
  "TokenCompressed True 5 9 = Some \<lparr>data1 = 720896, data2 = 9\<rparr>
   \<and> decompress \<lparr>data1 = 720896, data2 = 9\<rparr> = \<lparr>query = True, index = 5, pvalue = 9\<rparr>
   \<and> TokenCompressed True (2 ^ 47) 9 = None"
proof -
  have c: "TokenCompressed True 5 9 = Some \<lparr>data1 = 720896, data2 = 9\<rparr>"
    by (simp add: TokenCompressed_def tc_mask_def)
  from token_construction_range[of True 5 9] c
  have "decompress \<lparr>data1 = 720896, data2 = 9\<rparr> = \<lparr>query = True, index = 5, pvalue = 9\<rparr>"
    by simp
  moreover from token_construction_range[of True "2 ^ 47" 9]
  have "TokenCompressed True (2 ^ 47) 9 = None" by simp
  ultimately show ?thesis using c by simp
qed

section \<open>Reservoir sampling: the size of the reservoir\<close>

lemma length_push_late:
  "reservoir_target_size s \<le> elements_pushed s + 1 \<Longrightarrow>
   length (reservoir (push d r s)) = length (reservoir s) + 1"
  by (simp add: push_def Let_def)

text \<open>
  Claim C9 fails on the code. A reservoir of capacity 2 is created holding two
  value-initialised items; the first push replaces one of them, and every later push takes
  the branch \<^verbatim>\<open>_reservoir_target_size <= _elements_pushed\<close>, which appends. After
  three pushes the reservoir holds four items.
\<close>

theorem reservoir_exceeds_capacity:
  "map_option (\<lambda>s. reservoir (push_all [(1, 0), (2, 0), (3, 0)] s)) (ReservoirSampling (0::nat) 2)
   = Some [1, 0, 2, 3]"
  by (simp add: ReservoirSampling_def push_def Let_def numeral_2_eq_2)

section \<open>The edge filter as a list function\<close>


lemma remdups_adj_idem: "remdups_adj (remdups_adj xs) = remdups_adj xs"
proof (induction xs rule: remdups_adj.induct)
  case (3 x y xs)
  show ?case
  proof (cases "x = y")
    case True
    with 3 show ?thesis by simp
  next
    case False
    obtain zs where zs: "remdups_adj (y # xs) = y # zs"
      by (metis remdups_adj_Cons_alt)
    from False 3(2) have "remdups_adj (remdups_adj (y # xs)) = remdups_adj (y # xs)" by simp
    with False zs show ?thesis by simp
  qed
qed simp_all

text \<open>One non-initial fetch on a filter whose stream starts with a rejected candidate.\<close>

lemma fetch_skip:
  assumes "(self_loops f \<and> fst x = snd x) \<or> (multi_edges f \<and> current_edge f = x)"
  shows "fetch False (f\<lparr>ef_stream := x # xs\<rparr>) = fetch False (f\<lparr>ef_stream := xs\<rparr>)"
  using assms by (auto simp add: fetch_def)

lemma fetch_take:
  assumes "\<not> ((self_loops f \<and> fst x = snd x) \<or> (multi_edges f \<and> current_edge f = x))"
  shows "fetch False (f\<lparr>ef_stream := x # xs\<rparr>)
         = f\<lparr>last_edge := current_edge f, current_edge := x, ef_empty := False, ef_stream := xs\<rparr>"
  using assms by (auto simp add: fetch_def)

lemma fetch_end:
  "fetch False (f\<lparr>ef_stream := []\<rparr>)
   = f\<lparr>last_edge := current_edge f, ef_stream := [], ef_empty := True\<rparr>"
  by (simp add: fetch_def)

lemma output_running:
  "\<not> ef_empty f \<Longrightarrow>
   EdgeFilter_output (f\<lparr>ef_stream := xs\<rparr>)
   = dedup (multi_edges f) (current_edge f # filter (kept (self_loops f)) xs)"
proof (induction xs arbitrary: f)
  case Nil
  then show ?case
    by (subst EdgeFilter_output.simps, subst EdgeFilter_output.simps)
       (simp add: fetch_end dedup_def)
next
  case (Cons x xs)
  show ?case
  proof (cases "(self_loops f \<and> fst x = snd x) \<or> (multi_edges f \<and> current_edge f = x)")
    case True
    have "EdgeFilter_output (f\<lparr>ef_stream := x # xs\<rparr>)
          = current_edge f # EdgeFilter_output (fetch False (f\<lparr>ef_stream := xs\<rparr>))"
      using Cons.prems by (subst EdgeFilter_output.simps) (simp add: fetch_skip[OF True])
    also have "\<dots> = EdgeFilter_output (f\<lparr>ef_stream := xs\<rparr>)"
      using Cons.prems by (subst (2) EdgeFilter_output.simps) simp
    also have "\<dots> = dedup (multi_edges f) (current_edge f # filter (kept (self_loops f)) xs)"
      using Cons.prems by (rule Cons.IH)
    also have "\<dots> = dedup (multi_edges f) (current_edge f # filter (kept (self_loops f)) (x # xs))"
      using True by (auto simp add: dedup_def kept_def[of _ x])
    finally show ?thesis .
  next
    case False
    let ?g = "f\<lparr>last_edge := current_edge f, current_edge := x, ef_empty := False\<rparr>"
    have g: "\<not> ef_empty ?g" by simp
    have "EdgeFilter_output (f\<lparr>ef_stream := x # xs\<rparr>)
          = current_edge f # EdgeFilter_output (?g\<lparr>ef_stream := xs\<rparr>)"
      using Cons.prems by (subst EdgeFilter_output.simps) (simp add: fetch_take[OF False])
    also have "\<dots> = current_edge f # dedup (multi_edges f) (x # filter (kept (self_loops f)) xs)"
      using Cons.IH[OF g] by simp
    also have "\<dots> = dedup (multi_edges f) (current_edge f # filter (kept (self_loops f)) (x # xs))"
      using False by (auto simp add: dedup_def kept_def[of _ x])
    finally show ?thesis .
  qed
qed


lemma fetch_initial_skip:
  assumes "self_loops f \<and> fst x = snd x"
  shows "fetch True (f\<lparr>ef_stream := x # xs\<rparr>) = fetch True (f\<lparr>ef_stream := xs\<rparr>)"
  using assms by (auto simp add: fetch_def)

lemma fetch_initial_take:
  assumes "\<not> (self_loops f \<and> fst x = snd x)"
  shows "fetch True (f\<lparr>ef_stream := x # xs\<rparr>)
         = f\<lparr>last_edge := current_edge f, current_edge := x, ef_empty := False, ef_stream := xs\<rparr>"
  using assms by (auto simp add: fetch_def)

lemma output_initial:
  "EdgeFilter_output (fetch True (f\<lparr>ef_stream := xs\<rparr>))
   = dedup (multi_edges f) (filter (kept (self_loops f)) xs)"
proof (induction xs)
  case Nil
  show ?case
    by (subst EdgeFilter_output.simps) (simp add: fetch_def dedup_def)
next
  case (Cons x xs)
  show ?case
  proof (cases "self_loops f \<and> fst x = snd x")
    case True
    then have "\<not> kept (self_loops f) x" by (simp add: kept_def)
    with True show ?thesis
      using Cons.IH by (simp add: fetch_initial_skip)
  next
    case False
    let ?g = "f\<lparr>last_edge := current_edge f, current_edge := x, ef_empty := False\<rparr>"
    have "EdgeFilter_output (fetch True (f\<lparr>ef_stream := x # xs\<rparr>))
          = EdgeFilter_output (?g\<lparr>ef_stream := xs\<rparr>)"
      by (simp add: fetch_initial_take[OF False])
    also have "\<dots> = dedup (multi_edges f) (x # filter (kept (self_loops f)) xs)"
      using output_running[where f = ?g and xs = xs] by simp
    finally show ?thesis
      using False by (simp add: kept_def[of _ x])
  qed
qed

lemma filter_edges_eq: "filter_edges sl me xs = dedup me (filter (kept sl) xs)"
  unfolding filter_edges_def EdgeFilter_def
  using output_initial[where f = "\<lparr>ef_stream = xs, ef_empty = False, self_loops = sl,
                 multi_edges = me, current_edge = (0, 0), last_edge = (0, 0)\<rparr>" and xs = xs]
  by simp

lemma set_dedup: "set (dedup me xs) = set xs"
  by (simp add: dedup_def)

lemma dedup_idem: "dedup me (dedup me xs) = dedup me xs"
  by (simp add: dedup_def remdups_adj_idem)

text \<open>
  Claim C8. \<open>EdgeFilter\<close> with \<open>self_loops = true\<close> and \<open>multi_edges = true\<close> is
  idempotent: filtering the output of the filter once more yields the same sequence. It
  holds for every input stream, hence for every lexicographically sorted one.
\<close>

theorem EdgeFilter_idempotent:
  "filter_edges True True (filter_edges True True xs) = filter_edges True True xs"
proof -
  let ?ys = "filter (kept True) xs"
  have "\<forall>e \<in> set (dedup True ?ys). kept True e"
    by (simp add: set_dedup)
  then have "filter (kept True) (dedup True ?ys) = dedup True ?ys"
    by (simp only: filter_id_conv)
  then show ?thesis
    by (simp only: filter_edges_eq dedup_idem)
qed

lemma filter_edges_S5: "filter_edges True True [(1,2),(1,2),(1,2),(2,2),(2,3)] = [(1,2),(2,3)]"
  by (simp add: filter_edges_eq dedup_def kept_def)

section \<open>The stream merger delivers the nested two-way merge\<close>


lemma merge2_Nil2: "merge2 compare xs [] = xs"
  by (cases xs) simp_all

lemma sm_output_empty: "sm_empty m \<Longrightarrow> sm_output compare m = []"
  by (subst sm_output.simps) simp

lemma sm_output_nonempty:
  "\<not> sm_empty m \<Longrightarrow> sm_output compare m = sm_deref m # sm_output compare (sm_advance compare m)"
  by (subst sm_output.simps) simp

lemma sm_output_Single: "sm_output compare (Single xs) = xs"
proof (induction xs)
  case Nil
  show ?case by (simp add: sm_output_empty)
next
  case (Cons x xs)
  then show ?case by (simp add: sm_output_nonempty)
qed

lemma sm_output_advance_Merger:
  "sm_output compare (sm_advance compare (Merger ot my c False))
   = merge2 compare my (sm_output compare ot)"
proof (induction "length my + sm_pending ot" arbitrary: my ot c rule: less_induct)
  case less
  show ?case
  proof (cases "sm_empty ot")
    case True
    note ot = True
    show ?thesis
    proof (cases my)
      case Nil
      with ot show ?thesis by (simp add: sm_output_empty)
    next
      case (Cons x xs)
      have "sm_output compare (sm_advance compare (Merger ot my c False))
            = x # sm_output compare (sm_advance compare (Merger ot xs x False))"
        using ot Cons by (simp add: sm_output_nonempty)
      also have "\<dots> = x # merge2 compare xs (sm_output compare ot)"
        using less[of xs ot x] Cons by simp
      finally show ?thesis
        using ot Cons by (simp add: sm_output_empty merge2_Nil2)
    qed
  next
    case False
    note ot = False
    let ?y = "sm_deref ot" and ?ot' = "sm_advance compare ot"
    have out_ot: "sm_output compare ot = ?y # sm_output compare ?ot'"
      using ot by (rule sm_output_nonempty)
    have dec: "sm_pending ?ot' < sm_pending ot"
      using ot by (rule sm_advance_pending)
    show ?thesis
    proof (cases my)
      case Nil
      have "sm_output compare (sm_advance compare (Merger ot my c False))
            = ?y # sm_output compare (sm_advance compare (Merger ?ot' [] ?y False))"
        using ot Nil by (simp add: sm_output_nonempty)
      also have "\<dots> = ?y # merge2 compare [] (sm_output compare ?ot')"
        using less[of "[]" ?ot' ?y] dec Nil by simp
      finally show ?thesis
        using Nil out_ot by simp
    next
      case (Cons x xs)
      show ?thesis
      proof (cases "compare x ?y")
        case True
        have "sm_output compare (sm_advance compare (Merger ot my c False))
              = x # sm_output compare (sm_advance compare (Merger ot xs x False))"
          using ot Cons True by (simp add: sm_output_nonempty)
        also have "\<dots> = x # merge2 compare xs (sm_output compare ot)"
          using less[of xs ot x] Cons by simp
        finally show ?thesis
          using Cons True out_ot by simp
      next
        case False
        have "sm_output compare (sm_advance compare (Merger ot my c False))
              = ?y # sm_output compare (sm_advance compare (Merger ?ot' my ?y False))"
          using ot Cons False by (simp add: sm_output_nonempty)
        also have "\<dots> = ?y # merge2 compare my (sm_output compare ?ot')"
          using less[of my ?ot' ?y] dec by simp
        finally show ?thesis
          using Cons False out_ot by simp
      qed
    qed
  qed
qed

lemma sm_output_new_StreamMerger:
  "sm_output compare (new_StreamMerger compare junk ss) = foldr (merge2 compare) ss []"
proof (induction ss rule: new_StreamMerger.induct[of _ compare junk])
  case (1 compare junk)
  show ?case by (simp add: sm_output_Single)
next
  case (2 compare junk stream)
  show ?case by (simp add: sm_output_Single merge2_Nil2)
next
  case (3 compare junk stream v va)
  then show ?case by (simp add: sm_output_advance_Merger del: sm_advance.simps)
qed

section \<open>The stream merger against the step-wise description\<close>


lemma min_fronts_iff:
  "i \<in> set (min_fronts key ss) \<longleftrightarrow>
     i < length ss \<and> ss ! i \<noteq> [] \<and> (\<forall>t \<in> set ss. t = [] \<or> key (hd (ss ! i)) \<le> key (hd t))"
  by (auto simp add: min_fronts_def list_all_iff)

lemma min_fronts_Nil_iff: "min_fronts key ss = [] \<longleftrightarrow> (\<forall>t \<in> set ss. t = [])"
proof
  assume e: "min_fronts key ss = []"
  show "\<forall>t \<in> set ss. t = []"
  proof (rule ccontr)
    assume "\<not> (\<forall>t \<in> set ss. t = [])"
    then have ne: "{t \<in> set ss. t \<noteq> []} \<noteq> {}" by auto
    let ?K = "(\<lambda>t. key (hd t)) ` {t \<in> set ss. t \<noteq> []}"
    have "finite ?K" "?K \<noteq> {}" using ne by auto
    then have "Min ?K \<in> ?K" by (rule Min_in)
    then obtain t where t: "t \<in> set ss" "t \<noteq> []" "key (hd t) = Min ?K" by auto
    then obtain i where i: "i < length ss" "ss ! i = t" by (auto simp add: in_set_conv_nth)
    have "\<forall>u \<in> set ss. u = [] \<or> key (hd t) \<le> key (hd u)"
    proof (intro ballI)
      fix u assume u: "u \<in> set ss"
      show "u = [] \<or> key (hd t) \<le> key (hd u)"
      proof (cases "u = []")
        case False
        with u have "key (hd u) \<in> ?K" by auto
        with \<open>finite ?K\<close> have "Min ?K \<le> key (hd u)" by (rule Min_le)
        with t show ?thesis by simp
      qed simp
    qed
    with i t have "i \<in> set (min_fronts key ss)" by (simp add: min_fronts_iff)
    with e show False by simp
  qed
next
  assume "\<forall>t \<in> set ss. t = []"
  then have "\<And>i. i \<notin> set (min_fronts key ss)"
    by (auto simp add: min_fronts_iff)
  then show "min_fronts key ss = []" by (meson last_in_set)
qed

lemma min_fronts_Cons:
  "min_fronts key (s # ss) =
     (if s \<noteq> [] \<and> (\<forall>t \<in> set ss. t = [] \<or> key (hd s) \<le> key (hd t)) then [0] else [])
     @ map Suc (filter (\<lambda>i. s = [] \<or> key (hd (ss ! i)) \<le> key (hd s)) (min_fronts key ss))"
proof -
  have "[0..<length (s # ss)] = 0 # map Suc [0..<length ss]"
    by (simp add: upt_conv_Cons map_Suc_upt del: upt_Suc)
  then show ?thesis
    by (auto simp add: min_fronts_def list_all_iff filter_map comp_def intro!: filter_cong)
qed


lemma spec_merge_last_Nil: "min_fronts key ss = [] \<Longrightarrow> spec_merge_last key ss = []"
  by (subst spec_merge_last.simps) simp

lemma spec_merge_last_step:
  assumes "min_fronts key ss \<noteq> []"
  shows "spec_merge_last key ss =
         hd (ss ! last (min_fronts key ss)) #
         spec_merge_last key (ss[last (min_fronts key ss) := tl (ss ! last (min_fronts key ss))])"
proof -
  from assms obtain i js where "min_fronts key ss = i # js" by (cases "min_fronts key ss") auto
  then show ?thesis by (subst spec_merge_last.simps) simp
qed

lemma spec_merge_last_Cons:
  "spec_merge_last key (s # ss) = merge2 (kless key) s (spec_merge_last key ss)"
proof (induction "sum_list (map length (s # ss))" arbitrary: s ss rule: less_induct)
  case less
  show ?case
  proof (cases "min_fronts key ss = []")
    case True
    then have all_empty: "\<forall>t \<in> set ss. t = []" by (simp add: min_fronts_Nil_iff)
    have tail: "spec_merge_last key ss = []" using True by (rule spec_merge_last_Nil)
    show ?thesis
    proof (cases s)
      case Nil
      with all_empty have "min_fronts key (s # ss) = []" by (simp add: min_fronts_Nil_iff)
      with tail Nil show ?thesis by (simp add: spec_merge_last_Nil)
    next
      case (Cons x xs)
      with all_empty True have mf: "min_fronts key (s # ss) = [0]"
        by (simp add: min_fronts_Cons)
      have "spec_merge_last key (s # ss) = x # spec_merge_last key (xs # ss)"
        using mf Cons by (subst spec_merge_last_step) simp_all
      also have "\<dots> = x # merge2 (kless key) xs (spec_merge_last key ss)"
        using less[of xs ss] Cons by simp
      finally show ?thesis using tail Cons by (simp add: merge2_Nil2)
    qed
  next
    case False
    define j where "j = last (min_fronts key ss)"
    define y where "y = hd (ss ! j)"
    define ss' where "ss' = ss[j := tl (ss ! j)]"
    have "j \<in> set (min_fronts key ss)" using False by (simp add: j_def)
    then have j: "j < length ss" "ss ! j \<noteq> []"
      and jmin: "\<forall>t \<in> set ss. t = [] \<or> key y \<le> key (hd t)"
      by (simp_all add: min_fronts_iff y_def)
    have tail: "spec_merge_last key ss = y # spec_merge_last key ss'"
      using spec_merge_last_step[OF False] by (simp add: j_def y_def ss'_def)
    have smaller: "sum_list (map length ss') < sum_list (map length ss)"
      using j by (simp add: ss'_def sum_length_update)
    have others: "key (hd (ss ! i)) = key y" if "i \<in> set (min_fronts key ss)" for i
    proof -
      from that have i: "i < length ss" "ss ! i \<noteq> []"
        and imin: "\<forall>t \<in> set ss. t = [] \<or> key (hd (ss ! i)) \<le> key (hd t)"
        by (simp_all add: min_fronts_iff)
      from imin j have "key (hd (ss ! i)) \<le> key y" by (auto simp add: y_def)
      moreover from jmin i have "key y \<le> key (hd (ss ! i))" by auto
      ultimately show ?thesis by simp
    qed
    show ?thesis
    proof (cases "s \<noteq> [] \<and> key (hd s) < key y")
      case True
      then obtain x xs where s: "s = x # xs" and xy: "key x < key y" by (cases s) auto
      have "\<forall>t \<in> set ss. t = [] \<or> key x \<le> key (hd t)"
        using jmin xy by fastforce
      moreover have "filter (\<lambda>i. s = [] \<or> key (hd (ss ! i)) \<le> key (hd s)) (min_fronts key ss) = []"
        using others xy s by (auto simp add: filter_empty_conv)
      ultimately have mf: "min_fronts key (s # ss) = [0]"
        using s by (simp add: min_fronts_Cons)
      have "spec_merge_last key (s # ss) = x # spec_merge_last key (xs # ss)"
        using mf s by (subst spec_merge_last_step) simp_all
      also have "\<dots> = x # merge2 (kless key) xs (spec_merge_last key ss)"
        using less[of xs ss] s by simp
      finally show ?thesis using tail s xy by simp
    next
      case no: False
      have keep: "filter (\<lambda>i. s = [] \<or> key (hd (ss ! i)) \<le> key (hd s)) (min_fronts key ss)
                  = min_fronts key ss"
        using others no by (auto simp add: filter_id_conv not_less)
      obtain front where mf: "min_fronts key (s # ss) = front @ map Suc (min_fronts key ss)"
        using min_fronts_Cons[of key s ss] keep by simp
      then have ne: "min_fronts key (s # ss) \<noteq> []" using False by simp
      have lst: "last (min_fronts key (s # ss)) = Suc j"
        using mf False by (simp add: j_def last_map)
      have "spec_merge_last key (s # ss) = y # spec_merge_last key (s # ss')"
        using spec_merge_last_step[OF ne] by (simp add: lst y_def ss'_def)
      also have "\<dots> = y # merge2 (kless key) s (spec_merge_last key ss')"
        using less[of s ss'] smaller by simp
      finally show ?thesis
        using tail no by (cases s) (auto simp add: not_less)
    qed
  qed
qed

lemma spec_merge_last_nested: "spec_merge_last key ss = foldr (merge2 (kless key)) ss []"
proof (induction ss)
  case Nil
  show ?case by (simp add: spec_merge_last_Nil min_fronts_def)
next
  case (Cons s ss)
  then show ?case by (simp add: spec_merge_last_Cons)
qed

text \<open>
  Claim C5, amended. For every comparator of the form \<open>key x < key y\<close> with a key into a
  linear order (the token order and the integer order are of this form), every list of input
  streams and every initial content of \<open>_current\<close>: the sequence read from the merger is the one
  obtained by delivering, at each step, the minimum front element over all non-empty inputs
  and advancing exactly the input that provided it; when several inputs have a minimum front
  element, the one listed last is consumed first.
\<close>

theorem StreamMerger_min_front_later_first:
  "sm_output (\<lambda>x y. key x < key y) (new_StreamMerger (\<lambda>x y. key x < key y) junk ss)
   = spec_merge_last key ss"
  by (simp only: sm_output_new_StreamMerger spec_merge_last_nested)


text \<open>
  Claim C5, as stated, fails in its tie rule. With two streams whose fronts are equal, the
  constructor's first \<^verbatim>\<open>++\<close> finds \<^verbatim>\<open>_compare(*_my_stream, *_others)\<close> false and
  consumes the second stream: the first stream still holds its element. With a comparator on
  the first component the order of delivery shows it: the merger delivers the element of the
  second stream first, the input-index rule of the specification the element of the first.
\<close>

theorem StreamMerger_tie_consumes_later_stream:
  "new_StreamMerger (<) 0 [[1], [1::nat]] = Merger (Single []) [1] 1 False
   \<and> sm_output (\<lambda>x y. fst x < fst y)
        (new_StreamMerger (\<lambda>x y. fst x < fst y) (0, 0) [[(1::nat, 0::nat)], [(1, 1)]])
       = [(1, 1), (1, 0)]
   \<and> spec_merge_first fst [[(1::nat, 0::nat)], [(1, 1)]] = [(1, 0), (1, 1)]"
proof -
  have a: "new_StreamMerger (<) 0 [[1], [1::nat]] = Merger (Single []) [1] 1 False"
    by simp
  have b: "sm_output (\<lambda>x y. fst x < fst y)
        (new_StreamMerger (\<lambda>x y. fst x < fst y) (0, 0) [[(1::nat, 0::nat)], [(1, 1)]])
       = [(1, 1), (1, 0)]"
    by (simp only: sm_output_new_StreamMerger) simp
  have c: "spec_merge_first fst [[(1::nat, 0::nat)], [(1, 1)]] = [(1, 0), (1, 1)]"
    by (simp add: spec_merge_first.simps min_fronts_def upt_rec)
  from a b c show ?thesis by simp
qed

theorem StreamMerger_min_front_later_first_witness:
  "sm_output (\<lambda>x y. fst x < fst y)
        (new_StreamMerger (\<lambda>x y. fst x < fst y) (0, 0)
           [[(1::nat, 0::nat), (3, 0)], [(1, 1), (2, 1)], [(0, 2), (2, 2)]])
   = [(0, 2), (1, 1), (1, 0), (2, 2), (2, 1), (3, 0)]"
proof -
  have "spec_merge_last fst [[(1::nat, 0::nat), (3, 0)], [(1, 1), (2, 1)], [(0, 2), (2, 2)]]
        = [(0, 2), (1, 1), (1, 0), (2, 2), (2, 1), (3, 0)]"
    by (simp add: spec_merge_last_nested)
  with StreamMerger_min_front_later_first[of fst "(0, 0)"
         "[[(1::nat, 0::nat), (3, 0)], [(1, 1), (2, 1)], [(0, 2), (2, 2)]]"]
  show ?thesis by simp
qed

section \<open>BBCR: the positions drawn by the generator\<close>


lemma odd_word_unat: "odd (w::u64) \<longleftrightarrow> odd (unat w)"
  by (metis even_of_nat mult.right_neutral unsigned_1 word_arith_nat_mult)

lemma and_1_odd: "(w AND 1 \<noteq> 0) \<longleftrightarrow> odd (unat w)" for w :: u64
  by (simp add: and_one_eq mod_2_eq_odd odd_word_unat)

lemma unat_or_1: "unat (w OR 1 :: u64) = unat w + of_bool (even (unat w))"
proof -
  have "unat (w OR 1) = unat w OR unat (1::u64)" by (rule unsigned_or_eq)
  also have "\<dots> = unat w OR 1" by simp
  also have "\<dots> = unat w + of_bool (even (unat w))" by (rule or_one_eq)
  finally show ?thesis .
qed

lemma and_not_1_shift: "(w AND NOT 1 :: u64) = push_bit 1 (drop_bit 1 w)"
  by (rule bit_word_eqI) (auto simp add: bit_simps simp del: push_bit_Suc drop_bit_Suc One_nat_def)

lemma unat_drop_bit1: "unat (drop_bit 1 w :: u64) = unat w div 2"
  unfolding unat_drop_bit_eq by (simp add: drop_bit_eq_div)

lemma unat_push_bit1_small:
  fixes i :: u64
  assumes "i < 2 ^ 63"
  shows "unat (push_bit 1 i) = 2 * unat i"
proof -
  have "unat i < 2 ^ 63"
    using assms by (simp add: word_less_nat_alt)
  then have "2 * unat i < 2 ^ 64" by simp
  then show ?thesis
    by (simp add: push_bit_eq_mult unat_word_ariths)
qed

lemma unat_and_not_1: "unat (w AND NOT 1 :: u64) = 2 * (unat w div 2)"
proof -
  have "unat w < 2 ^ 64" using unsigned_less[of w] by simp
  then have "unat w div 2 < 2 ^ 63" by simp
  then have "unat (drop_bit 1 w) < 2 ^ 63" by (simp only: unat_drop_bit1)
  then have "drop_bit 1 w < 2 ^ 63" by (simp add: word_less_nat_alt)
  then have "unat (push_bit 1 (drop_bit 1 w)) = 2 * unat (drop_bit 1 w)"
    by (rule unat_push_bit1_small)
  then show ?thesis by (simp only: and_not_1_shift unat_drop_bit1)
qed

lemma unat_pa_position_in:
  "unat (pa_position DistrIn r) = unat r + of_bool (even (unat r))"
  by (simp only: pa_position_def Distribution.distinct if_False unat_or_1)

lemma unat_pa_position_out: "unat (pa_position DistrOut r) = 2 * (unat r div 2)"
  by (simp only: pa_position_def refl if_True unat_and_not_1)

lemma pa_position_in:
  assumes "r < (t AND NOT 1)"
  shows "pa_position DistrIn r AND 1 \<noteq> 0 \<and> r \<le> pa_position DistrIn r
         \<and> unat (pa_position DistrIn r) \<le> unat r + 1 \<and> pa_position DistrIn r < t"
proof -
  from assms have "unat r < 2 * (unat t div 2)"
    by (simp only: word_less_nat_alt unat_and_not_1)
  then show ?thesis
    unfolding and_1_odd word_le_nat_alt word_less_nat_alt unat_pa_position_in
    by (cases "even (unat r)") (simp_all, presburger+)
qed

lemma pa_position_out:
  assumes "r < (t AND NOT 1)"
  shows "pa_position DistrOut r AND 1 = 0 \<and> pa_position DistrOut r \<le> r
         \<and> unat r \<le> unat (pa_position DistrOut r) + 1 \<and> pa_position DistrOut r < t"
proof -
  from assms have "unat r < 2 * (unat t div 2)"
    by (simp only: word_less_nat_alt unat_and_not_1)
  moreover have "(pa_position DistrOut r AND 1 = 0) \<longleftrightarrow> even (unat (pa_position DistrOut r))"
    using and_1_odd[of "pa_position DistrOut r"] by blast
  ultimately show ?thesis
    unfolding word_le_nat_alt word_less_nat_alt unat_pa_position_out
    by (simp, presburger)
qed

section \<open>BBCR: one random token\<close>


lemma rand64_in_rangeD: "rand64_in_range rand64 \<Longrightarrow> 0 < N \<Longrightarrow> fst (rand64 g N) < N"
  by (simp add: rand64_in_range_def)

lemma and_not_1_pos: "0 < (t AND NOT 1)" if "2 \<le> t" for t :: u64
proof -
  from that have "2 \<le> unat t" by (simp add: word_le_nat_alt)
  then have "0 < 2 * (unat t div 2)" by simp
  then show ?thesis by (simp only: word_less_nat_alt unat_and_not_1 unat_0)
qed

lemma generate_random_token_cases_unfolded:
  fixes arith :: "'d double_arith" and rand64 :: "'g rand64" and randdbl :: "('g, 'd) randdbl"
    and st :: "'g ModelBBCR" and cfg :: "'d BBCR_config" and distr :: Distribution
  defines "offset \<equiv> (if distr = DistrOut then degree_offset_out cfg else degree_offset_in cfg)"
  defines "positive \<equiv> dbl_less arith (dbl_of_u64 arith 0) offset"
  defines "uniform \<equiv> positive \<and> below_uniform_threshold arith (fst (randdbl (rnd st)))
                                     (vertex_id st) offset (token_id_next st)"
  defines "g1 \<equiv> (if positive then snd (randdbl (rnd st)) else rnd st)"
  defines "r \<equiv> fst (rand64 g1 (token_id_next st AND NOT 1))"
  defines "res \<equiv> generate_random_token arith rand64 randdbl cfg distr st"
  assumes rng: "rand64_in_range rand64" and t2: "2 \<le> token_id_next st"
  shows "vertex_id (snd res) = vertex_id st
         \<and> token_id_next (snd res) = token_id_next st + 1
         \<and> (uniform \<longrightarrow>
              fst res = Token False (token_id_next st) (fst (rand64 g1 (vertex_id st + 1))))
         \<and> (\<not> uniform \<longrightarrow>
              fst res = Token True (pa_position distr r) (token_id_next st)
              \<and> r < (token_id_next st AND NOT 1)
              \<and> pa_position distr r < token_id_next st
              \<and> (distr = DistrIn \<longrightarrow> pa_position distr r AND 1 \<noteq> 0 \<and> r \<le> pa_position distr r
                                    \<and> unat (pa_position distr r) \<le> unat r + 1)
              \<and> (distr = DistrOut \<longrightarrow> pa_position distr r AND 1 = 0 \<and> pa_position distr r \<le> r
                                    \<and> unat r \<le> unat (pa_position distr r) + 1))"
proof -
  have r: "r < (token_id_next st AND NOT 1)"
    unfolding r_def using rng and_not_1_pos[OF t2] by (rule rand64_in_rangeD)
  have struct: "vertex_id (snd res) = vertex_id st"
      "token_id_next (snd res) = token_id_next st + 1"
      "uniform \<Longrightarrow> fst res = Token False (token_id_next st) (fst (rand64 g1 (vertex_id st + 1)))"
      "\<not> uniform \<Longrightarrow> fst res = Token True (pa_position distr r) (token_id_next st)"
    unfolding res_def uniform_def g1_def r_def positive_def offset_def generate_random_token_def
    by (auto simp add: Let_def split: prod.splits)
  show ?thesis
    using struct r pa_position_in[OF r] pa_position_out[OF r]
    by (cases distr) auto
qed



text \<open>
  Claim C4, amended. Let the generator be at vertex counter \<open>v\<close> and token slot \<open>t \<ge> 2\<close>, with
  \<^verbatim>\<open>_rand64\<close> drawing within its range. \<^verbatim>\<open>_generate_random_token\<close> leaves \<open>v\<close> unchanged
  and increments \<open>t\<close>. If the offset is positive and the number \<open>u\<close> drawn is below
  \<open>v\<cdot>offset / (v\<cdot>offset + t div 2)\<close>, both tests as the arithmetic of doubles decides them
  (whatever its rounding), it produces \<open>Link(t, rand(v+1))\<close>. Otherwise it draws \<open>r\<close>
  from \<open>[0, t & ~1)\<close> and produces \<open>Query(p, t)\<close> with \<open>p < t\<close>, where for the in-distribution
  \<open>p = r | 1\<close> is odd and is \<open>r\<close> or \<open>r + 1\<close> (an even draw is rounded up), and for the
  out-distribution \<open>p = r & ~1\<close> is even and is \<open>r\<close> or \<open>r - 1\<close> (an odd draw is rounded down).
\<close>

theorem generate_random_token_cases:
  assumes "rand64_in_range rand64" and "2 \<le> token_id_next st"
  shows
    "let offset = (if distr = DistrOut then degree_offset_out cfg else degree_offset_in cfg);
         positive = dbl_less arith (dbl_of_u64 arith 0) offset;
         uniform = (positive \<and> below_uniform_threshold arith (fst (randdbl (rnd st)))
                                     (vertex_id st) offset (token_id_next st));
         g1 = (if positive then snd (randdbl (rnd st)) else rnd st);
         r = fst (rand64 g1 (token_id_next st AND NOT 1));
         res = generate_random_token arith rand64 randdbl cfg distr st
     in vertex_id (snd res) = vertex_id st
        \<and> token_id_next (snd res) = token_id_next st + 1
        \<and> (uniform \<longrightarrow>
              fst res = Token False (token_id_next st) (fst (rand64 g1 (vertex_id st + 1))))
        \<and> (\<not> uniform \<longrightarrow>
              fst res = Token True (pa_position distr r) (token_id_next st)
              \<and> r < (token_id_next st AND NOT 1)
              \<and> pa_position distr r < token_id_next st
              \<and> (distr = DistrIn \<longrightarrow> pa_position distr r AND 1 \<noteq> 0 \<and> r \<le> pa_position distr r
                                    \<and> unat (pa_position distr r) \<le> unat r + 1)
              \<and> (distr = DistrOut \<longrightarrow> pa_position distr r AND 1 = 0 \<and> pa_position distr r \<le> r
                                    \<and> unat r \<le> unat (pa_position distr r) + 1))"
  unfolding Let_def by (rule generate_random_token_cases_unfolded[OF assms])

text \<open>
  Claim C4, as stated, fails in the rounding of the in-distribution case: with the draw
  \<open>r = 4\<close> at slot \<open>t = 9\<close> the generator emits \<open>Query(5, 9)\<close>; rounding 4 down to the
  nearest odd index gives 3.
\<close>

theorem in_distribution_rounds_up:
  "fst (generate_random_token real_arith (\<lambda>g N. (4, g)) (\<lambda>g. (1 / 2, g))
          \<lparr>number_of_edges = 1, alpha = 1 / 8, beta = 3 / 4,
           degree_offset_in = 0, degree_offset_out = 0\<rparr>
          DistrIn \<lparr>vertex_id = 3, token_id_next = 9, sorter = [], rnd = ()\<rparr>)
   = Token True 5 9
   \<and> spec_round_down_odd 4 = 3"
  by (simp add: generate_random_token_def real_arith_def pa_position_def spec_round_down_odd_def
                Token_def)

lemma rand64_mod_in_range: "rand64_in_range (\<lambda>g N. (of_nat g mod N, Suc g))"
  by (simp add: rand64_in_range_def word_mod_less_divisor)

theorem generate_random_token_cases_witness:
  "fst (generate_random_token real_arith (\<lambda>g N. (of_nat g mod N, Suc g)) (\<lambda>g. (1 / 2, Suc g))
          \<lparr>number_of_edges = 1, alpha = 1 / 8, beta = 3 / 4,
           degree_offset_in = 0, degree_offset_out = 1\<rparr>
          DistrIn \<lparr>vertex_id = 3, token_id_next = 9, sorter = [], rnd = 4\<rparr>)
   = Token True 5 9
   \<and> fst (generate_random_token real_arith (\<lambda>g N. (of_nat g mod N, Suc g)) (\<lambda>g. (1 / 2, Suc g))
          \<lparr>number_of_edges = 1, alpha = 1 / 8, beta = 3 / 4,
           degree_offset_in = 0, degree_offset_out = 1\<rparr>
          DistrOut \<lparr>vertex_id = 8, token_id_next = 8, sorter = [], rnd = 4\<rparr>)
   = Token False 8 5"
proof -
  from generate_random_token_cases[OF rand64_mod_in_range, where
         st = "\<lparr>vertex_id = 3, token_id_next = 9, sorter = [], rnd = 4\<rparr>" and distr = DistrIn
         and cfg = "\<lparr>number_of_edges = 1, alpha = 1 / 8, beta = 3 / 4,
           degree_offset_in = 0, degree_offset_out = 1\<rparr>" and randdbl = "\<lambda>g. (1 / 2, Suc g)" and arith = real_arith]
  have a: "fst (generate_random_token real_arith (\<lambda>g N. (of_nat g mod N, Suc g)) (\<lambda>g. (1 / 2, Suc g))
          \<lparr>number_of_edges = 1, alpha = 1 / 8, beta = 3 / 4,
           degree_offset_in = 0, degree_offset_out = 1\<rparr>
          DistrIn \<lparr>vertex_id = 3, token_id_next = 9, sorter = [], rnd = 4\<rparr>)
   = Token True 5 9"
    by (simp add: pa_position_def Let_def real_arith_def)
  from generate_random_token_cases[OF rand64_mod_in_range, where
         st = "\<lparr>vertex_id = 8, token_id_next = 8, sorter = [], rnd = 4\<rparr>" and distr = DistrOut
         and cfg = "\<lparr>number_of_edges = 1, alpha = 1 / 8, beta = 3 / 4,
           degree_offset_in = 0, degree_offset_out = 1\<rparr>" and randdbl = "\<lambda>g. (1 / 2, Suc g)" and arith = real_arith]
  have b: "fst (generate_random_token real_arith (\<lambda>g N. (of_nat g mod N, Suc g)) (\<lambda>g. (1 / 2, Suc g))
          \<lparr>number_of_edges = 1, alpha = 1 / 8, beta = 3 / 4,
           degree_offset_in = 0, degree_offset_out = 1\<rparr>
          DistrOut \<lparr>vertex_id = 8, token_id_next = 8, sorter = [], rnd = 4\<rparr>)
   = Token False 8 5"
    by (simp add: below_uniform_threshold_def Let_def real_arith_def)
  from a b show ?thesis by simp
qed

section \<open>The random query tokens of the BA generator in closed form\<close>


lemma draws_append:
  "draws randint (ws @ vs) g =
     (case draws randint ws g of (rs, g1) \<Rightarrow>
        case draws randint vs g1 of (ts, g2) \<Rightarrow> (rs @ ts, g2))"
  by (induction ws arbitrary: g) (auto split: prod.splits)

lemma length_draws: "draws randint ws g = (rs, g') \<Longrightarrow> length rs = length ws"
  by (induction ws arbitrary: g rs) (auto split: prod.splits)

lemma query_tokens_append:
  "query_tokens i (xs @ ys) = query_tokens i xs @ query_tokens (i + 2 * length xs) ys"
  by (induction xs arbitrary: i) auto

lemma query_tokens_map:
  "query_tokens i rs = map (\<lambda>(k, r). Token True r (i + 2 * k)) (zip [0..<length rs] rs)"
proof (induction rs arbitrary: i)
  case Nil
  show ?case by simp
next
  case (Cons r rs)
  have "zip [0..<length (r # rs)] (r # rs) = (0, r) # zip (map Suc [0..<length rs]) rs"
    by (simp add: upt_conv_Cons map_Suc_upt del: upt_Suc)
  then show ?case
    by (auto simp add: Cons.IH zip_map1 simp del: upt_Suc)
qed

lemma upt_shift: "k = Suc k' \<Longrightarrow> map f [0..<k] = f 0 # map (\<lambda>j. f (Suc j)) [0..<k']"
  by (simp add: upt_conv_Cons map_Suc_upt[symmetric] comp_def del: upt_Suc)

lemma ba_edge_loop_eq:
  "ba_edge_loop randint m d e (w, i, toks, g) =
     (case draws randint (map (\<lambda>j. w + 2 * of_bool d * j) [0..<m - e]) g of
        (rs, g') \<Rightarrow> (w + 2 * of_bool d * (m - e), i + 2 * (m - e), toks @ query_tokens i rs, g'))"
proof (induction "m - e" arbitrary: e w i toks g)
  case 0
  then show ?case by (subst ba_edge_loop.simps) simp
next
  case (Suc k)
  define s :: nat where "s = 2 * of_bool d"
  from Suc(2) have e: "e < m" and k: "k = m - (e + 1)" and me: "m - e = Suc (m - (e + 1))"
    by simp_all
  obtain r g1 where rg: "randint g w = (r, g1)" by force
  obtain rs g2 where dr: "draws randint (map (\<lambda>j. (w + s) + s * j) [0..<m - (e + 1)]) g1 = (rs, g2)"
    by force
  have "ba_edge_loop randint m d e (w, i, toks, g)
        = ba_edge_loop randint m d (e + 1) (w + s, i + 2, toks @ [Token True r i], g1)"
    by (subst ba_edge_loop.simps) (simp add: e rg s_def)
  also have "\<dots> = (w + s + s * (m - (e + 1)), i + 2 + 2 * (m - (e + 1)),
                     (toks @ [Token True r i]) @ query_tokens (i + 2) rs, g2)"
    using Suc(1)[OF k, of "w + s" "i + 2" "toks @ [Token True r i]" g1] dr
    by (simp add: s_def)
  also have "\<dots> = (w + s * (m - e), i + 2 * (m - e), toks @ query_tokens i (r # rs), g2)"
    by (simp add: me)
  finally have lhs: "ba_edge_loop randint m d e (w, i, toks, g)
        = (w + s * (m - e), i + 2 * (m - e), toks @ query_tokens i (r # rs), g2)" .
  have "map (\<lambda>j. w + s * j) [0..<m - e] = w # map (\<lambda>j. (w + s) + s * j) [0..<m - (e + 1)]"
    using upt_shift[OF me, of "\<lambda>j. w + s * j"] by (simp add: algebra_simps)
  then have "draws randint (map (\<lambda>j. w + s * j) [0..<m - e]) g = (r # rs, g2)"
    using rg dr by simp
  with lhs show ?case by (simp add: s_def)
qed


lemma ba_vertex_loop_eq:
  "ba_vertex_loop randint n m d v (w, i, toks, g) =
     (case draws randint
             (concat (map (\<lambda>u. map (\<lambda>j. (w + 2 * m * u) + 2 * of_bool d * j) [0..<m])
                          [0..<n - v])) g of
        (rs, g') \<Rightarrow> (w + 2 * m * (n - v), i + 2 * m * (n - v), toks @ query_tokens i rs, g'))"
proof (induction "n - v" arbitrary: v w i toks g)
  case 0
  then show ?case by (subst ba_vertex_loop.simps) simp
next
  case (Suc k)
  define s :: nat where "s = 2 * of_bool d"
  define F where "F = (\<lambda>w u. map (\<lambda>j. (w + 2 * m * u) + s * j) [0..<m])"
  from Suc(2) have v: "v < n" and k: "k = n - (v + 1)" and nv: "n - v = Suc (n - (v + 1))"
    by simp_all
  obtain rs1 g1 where d1: "draws randint (F w 0) g = (rs1, g1)" by force
  then have len1: "length rs1 = m" using length_draws[OF d1] by (simp add: F_def)
  obtain rs2 g2 where d2: "draws randint (concat (map (F (w + 2 * m)) [0..<n - (v + 1)])) g1 = (rs2, g2)"
    by force
  have edge: "ba_edge_loop randint m d 0 (w, i, toks, g)
              = (w + s * m, i + 2 * m, toks @ query_tokens i rs1, g1)"
    using d1 by (simp add: ba_edge_loop_eq F_def s_def)
  have "ba_vertex_loop randint n m d v (w, i, toks, g)
        = ba_vertex_loop randint n m d (v + 1) (w + 2 * m, i + 2 * m, toks @ query_tokens i rs1, g1)"
    by (subst ba_vertex_loop.simps) (simp add: v edge)
  also have "\<dots> = (w + 2 * m + 2 * m * (n - (v + 1)), i + 2 * m + 2 * m * (n - (v + 1)),
                     (toks @ query_tokens i rs1) @ query_tokens (i + 2 * m) rs2, g2)"
    using Suc(1)[OF k, of "w + 2 * m" "i + 2 * m" "toks @ query_tokens i rs1" g1] d2
    by (simp add: F_def s_def)
  also have "\<dots> = (w + 2 * m * (n - v), i + 2 * m * (n - v), toks @ query_tokens i (rs1 @ rs2), g2)"
    by (simp add: nv query_tokens_append len1)
  finally have lhs: "ba_vertex_loop randint n m d v (w, i, toks, g)
        = (w + 2 * m * (n - v), i + 2 * m * (n - v), toks @ query_tokens i (rs1 @ rs2), g2)" .
  have "map (F w) [0..<n - v] = F w 0 # map (\<lambda>u. F w (Suc u)) [0..<n - (v + 1)]"
    by (rule upt_shift[OF nv])
  moreover have "(\<lambda>u. F w (Suc u)) = F (w + 2 * m)"
    by (rule ext) (simp add: F_def algebra_simps)
  ultimately have "concat (map (F w) [0..<n - v])
                   = F w 0 @ concat (map (F (w + 2 * m)) [0..<n - (v + 1)])"
    by simp
  then have "draws randint (concat (map (F w) [0..<n - v])) g = (rs1 @ rs2, g2)"
    using d1 d2 by (simp add: draws_append)
  with lhs show ?case by (simp add: F_def s_def)
qed

lemma concat_rows:
  "0 < m \<Longrightarrow> concat (map (\<lambda>u. map (\<lambda>j. f u j) [0..<m]) [0..<n])
             = map (\<lambda>k. f (k div m) (k mod m)) [0..<n * m]"
proof (induction n)
  case 0
  show ?case by simp
next
  case (Suc n)
  have "[0..<n * m + m] = [0..<n * m] @ [n * m..<n * m + m]"
    by (rule upt_add_eq_append) simp
  moreover have "[n * m..<n * m + m] = map (\<lambda>j. j + n * m) [0..<m]"
    by (simp only: map_add_upt add.commute[of m])
  moreover have "Suc n * m = n * m + m" by simp
  ultimately have "[0..<Suc n * m] = [0..<n * m] @ map (\<lambda>j. j + n * m) [0..<m]"
    by (simp only:)
  moreover have "map (\<lambda>k. f (k div m) (k mod m)) (map (\<lambda>j. j + n * m) [0..<m])
                 = map (\<lambda>j. f n j) [0..<m]"
    using Suc.prems by simp
  ultimately show ?case using Suc by simp
qed

lemma numberOfEdges_InitialCircle: "numberOfEdges (InitialCircle k first) = k"
  by (simp add: numberOfEdges_def InitialCircle_def ic_advance_def)

lemma ba_random_tokens_eq:
  assumes "0 < m"
  shows "ba_random_tokens randint g (InitialCircle (2 * m) 0) n m d =
         map (\<lambda>(k, r). Token True r (4 * m + 1 + 2 * k))
             (zip [0..<n * m] (fst (draws randint (map (edge_weight (4 * m) m d) [0..<n * m]) g)))"
proof -
  have ws: "concat (map (\<lambda>u. map (\<lambda>j. (4 * m + 2 * m * u) + 2 * of_bool d * j) [0..<m]) [0..<n])
            = map (edge_weight (4 * m) m d) [0..<n * m]"
    using concat_rows[OF assms, of "\<lambda>u j. (4 * m + 2 * m * u) + 2 * of_bool d * j" n]
    by (simp add: edge_weight_def)
  obtain rs g' where dr: "draws randint (map (edge_weight (4 * m) m d) [0..<n * m]) g = (rs, g')"
    by force
  then have len: "length rs = n * m" using length_draws[OF dr] by simp
  have "ba_vertex_loop randint n m d 0 (4 * m, 4 * m + 1, [], g)
        = (4 * m + 2 * m * n, 4 * m + 1 + 2 * m * n, query_tokens (4 * m + 1) rs, g')"
    using dr by (simp add: ba_vertex_loop_eq ws)
  then have "ba_random_tokens randint g (InitialCircle (2 * m) 0) n m d
             = query_tokens (4 * m + 1) rs"
    by (simp add: ba_random_tokens_def numberOfEdges_InitialCircle)
  then show ?thesis
    using dr len by (simp add: query_tokens_map)
qed

section \<open>The requests of the parallel engine in closed form\<close>


lemma pba_edge_loop_eq:
  "pba_edge_loop draw sg sw m d v e (w, i, toks) =
     (w + 2 * of_bool d * (m - e), i + (m - e),
      toks @ map (\<lambda>j. pba_request sg sw m (i + j) (draw v (e + j) (w + 2 * of_bool d * j)))
                 [0..<m - e])"
proof (induction "m - e" arbitrary: e w i toks)
  case 0
  then show ?case by (subst pba_edge_loop.simps) simp
next
  case (Suc k)
  define s :: nat where "s = 2 * of_bool d"
  define f where "f = (\<lambda>e w i j. pba_request sg sw m (i + j) (draw v (e + j) (w + s * j)))"
  from Suc(2) have e: "e < m" and k: "k = m - (e + 1)" and me: "m - e = Suc (m - (e + 1))"
    by simp_all
  have "pba_edge_loop draw sg sw m d v e (w, i, toks)
        = pba_edge_loop draw sg sw m d v (e + 1)
            (w + s, i + 1, toks @ [pba_request sg sw m i (draw v e w)])"
    by (subst pba_edge_loop.simps) (simp add: e s_def Let_def)
  also have "\<dots> = (w + s + s * (m - (e + 1)), i + 1 + (m - (e + 1)),
                     (toks @ [f e w i 0]) @ map (f (e + 1) (w + s) (i + 1)) [0..<m - (e + 1)])"
    using Suc(1)[OF k, of "w + s" "i + 1" "toks @ [pba_request sg sw m i (draw v e w)]"]
    by (simp add: f_def s_def)
  also have "(\<lambda>j. f (e + 1) (w + s) (i + 1) j) = (\<lambda>j. f e w i (Suc j))"
    by (rule ext) (simp add: f_def algebra_simps)
  finally have "pba_edge_loop draw sg sw m d v e (w, i, toks)
        = (w + s * (m - e), i + (m - e), toks @ f e w i 0 # map (\<lambda>j. f e w i (Suc j)) [0..<m - (e + 1)])"
    by (simp add: me)
  also have "f e w i 0 # map (\<lambda>j. f e w i (Suc j)) [0..<m - (e + 1)] = map (f e w i) [0..<m - e]"
    by (rule upt_shift[OF me, symmetric])
  finally show ?case by (simp add: f_def s_def)
qed

lemma pba_vertex_loop_eq:
  "pba_vertex_loop draw sg sw n m d v toks =
     toks @ concat (map (\<lambda>u. map (\<lambda>j. pba_request sg sw m (m * (v + u) + j)
                                     (draw (v + u) j (sw + 2 * m * (v + u) + 2 * of_bool d * j)))
                            [0..<m]) [0..<n - v])"
proof (induction "n - v" arbitrary: v toks)
  case 0
  then show ?case by (subst pba_vertex_loop.simps) simp
next
  case (Suc k)
  define F where "F = (\<lambda>v u. map (\<lambda>j. pba_request sg sw m (m * (v + u) + j)
                                     (draw (v + u) j (sw + 2 * m * (v + u) + 2 * of_bool d * j)))
                            [0..<m])"
  from Suc(2) have v: "v < n" and k: "k = n - (v + 1)" and nv: "n - v = Suc (n - (v + 1))"
    by simp_all
  have "pba_vertex_loop draw sg sw n m d v toks
        = pba_vertex_loop draw sg sw n m d (v + 1) (toks @ F v 0)"
    by (subst pba_vertex_loop.simps) (simp add: v pba_edge_loop_eq F_def Let_def)
  also have "\<dots> = (toks @ F v 0) @ concat (map (F (v + 1)) [0..<n - (v + 1)])"
    using Suc(1)[OF k, of "toks @ F v 0"] by (simp add: F_def)
  also have "F (v + 1) = (\<lambda>u. F v (Suc u))"
    by (rule ext) (simp add: F_def)
  finally have "pba_vertex_loop draw sg sw n m d v toks
        = toks @ concat (F v 0 # map (\<lambda>u. F v (Suc u)) [0..<n - (v + 1)])"
    by simp
  also have "F v 0 # map (\<lambda>u. F v (Suc u)) [0..<n - (v + 1)] = map (F v) [0..<n - v]"
    by (rule upt_shift[OF nv, symmetric])
  finally show ?case by (simp add: F_def)
qed

lemma pba_requests_eq:
  assumes "0 < m"
  shows "pba_requests draw n m d =
         map (\<lambda>k. pba_request \<lparr>rag_number_of_edges = 1000 * m\<rparr> (2000 * m) m k
                     (draw (k div m) (k mod m) (edge_weight (2000 * m) m d k)))
             [0..<n * m]"
proof -
  have "pba_requests draw n m d
        = concat (map (\<lambda>u. map (\<lambda>j. pba_request \<lparr>rag_number_of_edges = 1000 * m\<rparr> (2000 * m) m
                                       (m * u + j)
                                       (draw u j (2000 * m + 2 * m * u + 2 * of_bool d * j)))
                              [0..<m]) [0..<n])"
    by (simp add: pba_requests_def rag_numberOfEdges_def pba_vertex_loop_eq Let_def)
  also have "\<dots> = map (\<lambda>k. pba_request \<lparr>rag_number_of_edges = 1000 * m\<rparr> (2000 * m) m
                              (m * (k div m) + k mod m)
                              (draw (k div m) (k mod m)
                                 (2000 * m + 2 * m * (k div m) + 2 * of_bool d * (k mod m))))
                       [0..<n * m]"
    by (rule concat_rows[OF assms])
  finally show ?thesis by (simp add: edge_weight_def)
qed

section \<open>BBCR: the loop of the generator returns, and its queries point forward\<close>


lemma token_id_le: "token_id (Token q i v :: Token64) \<le> i"
  by (simp add: word_le_nat_alt token_id_Token)

lemma generate_random_token_query:
  assumes rng: "rand64_in_range rand64" and t2: "2 \<le> token_id_next st"
    and res: "generate_random_token arith rand64 randdbl cfg distr st = (tok, st')"
  shows "(token_query tok \<longrightarrow> token_id tok < token_value tok)
         \<and> token_id_next st' = token_id_next st + 1 \<and> vertex_id st' = vertex_id st
         \<and> sorter st' = sorter st"
proof -
  note c = generate_random_token_cases_unfolded[OF rng t2, where cfg = cfg and distr = distr and randdbl = randdbl
                 and arith = arith]
  have s: "sorter st' = sorter st"
    using res by (auto simp add: generate_random_token_def Let_def split: prod.splits if_splits)
  show ?thesis
  proof (cases "token_query tok")
    case False
    with c res s show ?thesis by simp
  next
    case True
    from c res True obtain p where p: "tok = Token True p (token_id_next st)" "p < token_id_next st"
      by (cases "dbl_less arith (dbl_of_u64 arith 0)
                   (if distr = DistrOut then degree_offset_out cfg else degree_offset_in cfg) \<and>
    below_uniform_threshold arith (fst (randdbl (rnd st))) (vertex_id st)
     (if distr = DistrOut then degree_offset_out cfg
      else degree_offset_in cfg)
     (token_id_next st)") (auto simp add: token_query_Token)
    have "token_id tok \<le> p" using p(1) by (simp add: token_id_le)
    with p have "token_id tok < token_value tok" by (simp add: token_value_Token)
    with c res s show ?thesis by simp
  qed
qed


lemma good_queries_append:
  "good_queries (ts @ [t]) \<longleftrightarrow> good_queries ts \<and> (token_query t \<longrightarrow> token_id t < token_value t)"
  by (auto simp add: good_queries_def)

lemma push_link_facts:
  "good_queries (sorter st) \<Longrightarrow> good_queries (sorter (push_link st))"
  "token_id_next (push_link st) = token_id_next st + 1"
  by (simp_all add: push_link_def good_queries_append token_query_Token)

lemma push_random_facts:
  assumes "rand64_in_range rand64" "2 \<le> token_id_next st" "good_queries (sorter st)"
  shows "good_queries (sorter (push_random arith rand64 randdbl cfg distr st))"
    and "token_id_next (push_random arith rand64 randdbl cfg distr st) = token_id_next st + 1"
proof -
  obtain tok st' where r: "generate_random_token arith rand64 randdbl cfg distr st = (tok, st')"
    by force
  from generate_random_token_query[OF assms(1,2) r] assms(3)
  show "good_queries (sorter (push_random arith rand64 randdbl cfg distr st))"
    and "token_id_next (push_random arith rand64 randdbl cfg distr st) = token_id_next st + 1"
    by (simp_all add: push_random_def r good_queries_append)
qed

lemma populate_step_facts:
  assumes rng: "rand64_in_range rand64" and t: "2 \<le> token_id_next st" "2 \<le> token_id_next st + 1"
    and good: "good_queries (sorter st)"
  shows "good_queries (sorter (populate_step arith rand64 randdbl cfg mode st))"
    and "token_id_next (populate_step arith rand64 randdbl cfg mode st) = token_id_next st + 2"
proof -
  have l1: "token_id_next (push_link st) = token_id_next st + 1"
       "good_queries (sorter (push_link st))"
    using good by (simp_all add: push_link_facts)
  note pr = push_random_facts[where arith = arith and randdbl = randdbl and cfg = cfg, OF rng]
  have r1: "token_id_next (push_random arith rand64 randdbl cfg d st) = token_id_next st + 1"
       "good_queries (sorter (push_random arith rand64 randdbl cfg d st))" for d
    using pr[OF t(1) good] by simp_all
  have r2: "token_id_next (push_random arith rand64 randdbl cfg d (push_link st)) = token_id_next st + 2"
       "good_queries (sorter (push_random arith rand64 randdbl cfg d (push_link st)))" for d
    using pr[where st = "push_link st"] l1 t(2) by simp_all
  have r3: "token_id_next (push_random arith rand64 randdbl cfg d (push_random arith rand64 randdbl cfg d' st))
              = token_id_next st + 2"
       "good_queries (sorter (push_random arith rand64 randdbl cfg d (push_random arith rand64 randdbl cfg d' st)))"
    for d d'
    using pr[where st = "push_random arith rand64 randdbl cfg d' st"] r1 t(2) by simp_all
  have l2: "token_id_next (push_link (push_random arith rand64 randdbl cfg d st)) = token_id_next st + 2"
       "good_queries (sorter (push_link (push_random arith rand64 randdbl cfg d st)))" for d
    using r1 by (simp_all add: push_link_facts)
  show "good_queries (sorter (populate_step arith rand64 randdbl cfg mode st))"
    by (simp add: populate_step_def Let_def r2 r3 l2)
  show "token_id_next (populate_step arith rand64 randdbl cfg mode st) = token_id_next st + 2"
    by (simp add: populate_step_def Let_def r2 r3 l2)
qed

lemma populate_loop_returns:
  assumes rng: "rand64_in_range rand64" and mx: "even (unat mx)"
  shows "even (unat (token_id_next st)) \<Longrightarrow> 2 \<le> unat (token_id_next st)
         \<Longrightarrow> unat (token_id_next st) \<le> unat mx \<Longrightarrow> good_queries (sorter st)
         \<Longrightarrow> \<exists>st'. populate_loop arith rand64 randdbl cfg mx st = Some (Inr st')
                   \<and> good_queries (sorter st') \<and> token_id_next st' = mx"
proof (induction "unat mx - unat (token_id_next st)" arbitrary: st rule: less_induct)
  case less
  let ?t = "token_id_next st"
  show ?case
  proof (cases "?t < mx")
    case False
    with less.prems(3) have "?t = mx" by (simp add: word_less_nat_alt word_unat_eq_iff)
    with False less.prems(4) show ?thesis
      by (subst populate_loop.simps) simp
  next
    case True
    obtain mode g where md: "randdbl (rnd st) = (mode, g)" by force
    let ?st1 = "populate_step arith rand64 randdbl cfg mode (st\<lparr>rnd := g\<rparr>)"
    from True have lt: "unat ?t < unat mx" by (simp add: word_less_nat_alt)
    with mx less.prems(1) have le2: "unat ?t + 2 \<le> unat mx" by presburger
    have bound: "unat mx < 2 ^ 64" using unsigned_less[of mx] by simp
    have u1: "unat (?t + 1) = unat ?t + 1" and u2: "unat (?t + 2) = unat ?t + 2"
      using le2 bound by (simp_all add: unat_word_ariths)
    have t2: "2 \<le> ?t" "2 \<le> ?t + 1"
      using less.prems(2) u1 by (simp_all add: word_le_nat_alt)
    have noassert: "\<not> (?t AND 1 \<noteq> 0)"
      using less.prems(1) by (simp add: and_1_odd)
    have st1: "good_queries (sorter ?st1)" "token_id_next ?st1 = ?t + 2"
      using populate_step_facts[OF rng, where st = "st\<lparr>rnd := g\<rparr>" and randdbl = randdbl
              and cfg = cfg and mode = mode and arith = arith] t2 less.prems(4)
      by simp_all
    have "\<exists>st'. populate_loop arith rand64 randdbl cfg mx ?st1 = Some (Inr st')
                   \<and> good_queries (sorter st') \<and> token_id_next st' = mx"
      using less.hyps[of ?st1] st1 u2 le2 lt less.prems(1,2) by simp
    moreover have "populate_loop arith rand64 randdbl cfg mx st = populate_loop arith rand64 randdbl cfg mx ?st1"
      using True md noassert by (subst populate_loop.simps) simp
    ultimately show ?thesis by simp
  qed
qed

lemma ModelBBCR_returns:
  assumes rng: "rand64_in_range rand64" and fe: "1 \<le> unat fe_id"
    and nowrap: "2 * unat fe_id + 2 * unat (number_of_edges cfg) < 2 ^ 64"
  shows "\<exists>st. ModelBBCR arith rand64 randdbl g0 cfg fv fe_id = Some (Inr st)
              \<and> good_queries (sorter st)"
proof -
  have t0: "unat (2 * fe_id) = 2 * unat fe_id"
    using nowrap by (simp add: unat_word_ariths)
  have e2: "unat (2 * number_of_edges cfg) = 2 * unat (number_of_edges cfg)"
    using nowrap by (simp add: unat_word_ariths)
  have mx: "unat (2 * fe_id + 2 * number_of_edges cfg)
            = 2 * unat fe_id + 2 * unat (number_of_edges cfg)"
    using nowrap t0 e2 by (simp add: unat_word_ariths)
  let ?st0 = "\<lparr>vertex_id = fv, token_id_next = 2 * fe_id, sorter = [], rnd = g0\<rparr>"
  have "\<exists>st'. populate_loop arith rand64 randdbl cfg (2 * fe_id + 2 * number_of_edges cfg) ?st0
                = Some (Inr st')
              \<and> good_queries (sorter st')
              \<and> token_id_next st' = 2 * fe_id + 2 * number_of_edges cfg"
    by (rule populate_loop_returns[OF rng])
       (use fe in \<open>simp_all add: t0 mx good_queries_def\<close>)
  then show ?thesis
    by (auto simp add: ModelBBCR_def populate_def)
qed

section \<open>The queries of the generators ask backwards\<close>


lemma nat_token_id [simp]: "token_id (Token q i v :: nat Token) = i"
  by (cases q) (simp_all add: token_id_def Token_def drop_bit_eq_div)

lemma nat_token_query [simp]: "token_query (Token q i v :: nat Token) = q"
  by (cases q) (simp_all add: token_query_def Token_def and_one_eq mod_Suc)

lemma nat_token_value [simp]: "token_value (Token q i v :: nat Token) = v"
  by (simp add: token_value_def Token_def)

lemma randint_in_rangeD:
  "randint_in_range randint \<Longrightarrow> 0 < N \<Longrightarrow> randint g N = (r, g') \<Longrightarrow> r < N"
  unfolding randint_in_range_def by (metis fst_conv)

lemma draws_in_range:
  assumes "randint_in_range randint"
  shows "\<forall>w \<in> set ws. 0 < w \<Longrightarrow> draws randint ws g = (rs, g')
         \<Longrightarrow> list_all2 (<) rs ws"
proof (induction ws arbitrary: g rs g')
  case Nil
  then show ?case by simp
next
  case (Cons w ws)
  obtain r g1 where r: "randint g w = (r, g1)" by force
  obtain rs1 g2 where d: "draws randint ws g1 = (rs1, g2)" by force
  from Cons.prems(1) have "0 < w" by simp
  with assms have "r < w" using r by (rule randint_in_rangeD)
  moreover from Cons.IH[OF _ d] Cons.prems(1) have "list_all2 (<) rs1 ws" by simp
  ultimately show ?case using Cons.prems(2) r d by auto
qed

lemma edge_weight_le: "edge_weight sw m d k \<le> sw + 2 * k"
proof -
  have "2 * m * (k div m) + 2 * (k mod m) = 2 * (m * (k div m) + k mod m)"
    by (simp only: distrib_left mult.assoc)
  also have "\<dots> = 2 * k" by (simp only: mult_div_mod_eq)
  finally have "2 * m * (k div m) + 2 * (k mod m) = 2 * k" .
  moreover have "2 * m * (k div m) \<le> 2 * m * (k div m) + 2 * (k mod m)" by simp
  ultimately have "2 * m * (k div m) + 2 * of_bool d * (k mod m) \<le> 2 * k"
    by (cases d) simp_all
  then show ?thesis by (simp add: edge_weight_def)
qed

lemma edge_weight_pos: "0 < sw \<Longrightarrow> 0 < edge_weight sw m d k"
  by (simp add: edge_weight_def)

lemma ba_queries_forward:
  assumes m: "0 < m" and rng: "randint_in_range randint"
    and t: "t \<in> set (ba_random_tokens randint g (InitialCircle (2 * m) 0) n m d)"
  shows "token_query t \<and> token_id t < token_value t"
proof -
  let ?ws = "map (edge_weight (4 * m) m d) [0..<n * m]"
  obtain rs g' where dr: "draws randint ?ws g = (rs, g')" by force
  have "\<forall>w \<in> set ?ws. 0 < w" using m by (auto simp add: edge_weight_pos)
  from draws_in_range[OF rng this dr] have lt: "list_all2 (<) rs ?ws" .
  then have len: "length rs = n * m" by (auto dest: list_all2_lengthD)
  from t obtain k where k: "k < n * m" and tk: "t = Token True (rs ! k) (4 * m + 1 + 2 * k)"
    using dr len by (auto simp add: ba_random_tokens_eq[OF m] in_set_zip)
  from lt k have "rs ! k < edge_weight (4 * m) m d k"
    using list_all2_nthD[OF lt, of k] len by simp
  also have "\<dots> \<le> 4 * m + 2 * k" by (rule edge_weight_le)
  finally show ?thesis using tk by simp
qed

lemma sub_mod_eq: "b \<le> a \<Longrightarrow> a < N \<Longrightarrow> (a + N - b) mod N = a - (b::nat)"
proof -
  assume "b \<le> a" "a < N"
  then have "a + N - b = (a - b) + N" and "a - b < N"
    by (simp_all only: Nat.add_diff_assoc2 less_imp_diff_less)
  then show ?thesis by (simp only: mod_add_self2 mod_less)
qed

lemma u64_sub_eq: "b \<le> a \<Longrightarrow> a < 2 ^ 64 \<Longrightarrow> u64_sub a b = a - b"
  unfolding u64_sub_def by (rule sub_mod_eq)

lemma pba_queries_forward:
  assumes m: "0 < m" and rng: "draw_in_range draw" and size: "2000 * m + 2 * n * m \<le> 2 ^ 64"
    and t: "t \<in> set (pba_requests draw n m d)" and q: "query t"
  shows "index t < pvalue t"
proof -
  let ?sw = "2000 * m"
  from t obtain k where k: "k < n * m"
    and tk: "t = pba_request \<lparr>rag_number_of_edges = 1000 * m\<rparr> ?sw m k
                   (draw (k div m) (k mod m) (edge_weight ?sw m d k))"
    by (auto simp add: pba_requests_eq[OF m])
  define r where "r = draw (k div m) (k mod m) (edge_weight ?sw m d k)"
  have "r < edge_weight ?sw m d k"
    using rng m by (simp add: r_def draw_in_range_def edge_weight_pos)
  also have "\<dots> \<le> ?sw + 2 * k" by (rule edge_weight_le)
  finally have r: "r < ?sw + 2 * k" .
  from k have "2 * k < 2 * (n * m)" by simp
  with r size have r64: "r < 2 ^ 64" by simp
  from q tk have ge: "?sw \<le> r" and tq: "t = \<lparr>query = True, index = u64_sub r ?sw div 2, pvalue = k\<rparr>"
    by (auto simp add: pba_request_def r_def split: if_splits)
  from ge r64 have "u64_sub r ?sw = r - ?sw" by (rule u64_sub_eq)
  with r ge tq show ?thesis by simp
qed


text \<open>
  Claim C2. Every Query token a generator produces asks for an edge-list position before
  the position its answer goes to, \<open>idx < v\<close>:

  \<^item> the random query stream of the sequential generator (main\_ba.cpp), with the seed ring
    of \<open>2\<cdot>m\<close> vertices;
  \<^item> the request filler of the parallel engine (main\_pba.cpp);
  \<^item> the token sequence of the BBCR generator (ModelBBCR.hpp), whose population loop
    returns without a failed assertion.

  The generators of random numbers return a number below the supremum they are given,
  there is at least one edge per vertex, and the sizes are such that no counter of the
  generators passes the 64 bits of \<^verbatim>\<open>uint64_t\<close> (63 bits for a token id, which is stored
  shifted by one). The BBCR generator starts at an edge id of at least one (main\_bbcr.cpp
  passes the number of edges of the seed circle).
\<close>

theorem queries_ask_backwards:
  assumes "0 < m"
    and "randint_in_range randint" and "4 * m + 2 * n * m < 2 ^ 63"
    and "draw_in_range draw" and "2000 * m + 2 * n * m \<le> 2 ^ 64"
    and "rand64_in_range rand64" and "1 \<le> unat first_edge"
    and "2 * unat first_edge + 2 * unat (number_of_edges cfg) < 2 ^ 64"
  shows "good_queries (ba_random_tokens randint g (InitialCircle (2 * m) 0) n m d)
       \<and> (\<forall>t \<in> set (pba_requests draw n m d). query t \<longrightarrow> index t < pvalue t)
       \<and> (\<exists>st. ModelBBCR arith rand64 randdbl g0 cfg first_vertex first_edge = Some (Inr st)
               \<and> good_queries (sorter st))"
proof (intro conjI)
  show "good_queries (ba_random_tokens randint g (InitialCircle (2 * m) 0) n m d)"
    unfolding good_queries_def using ba_queries_forward[OF assms(1,2)] by blast
  show "\<forall>t \<in> set (pba_requests draw n m d). query t \<longrightarrow> index t < pvalue t"
    using pba_queries_forward[OF assms(1,4,5)] by blast
  show "\<exists>st. ModelBBCR arith rand64 randdbl g0 cfg first_vertex first_edge = Some (Inr st)
               \<and> good_queries (sorter st)"
    using assms(6,7,8) by (rule ModelBBCR_returns)
qed

lemma randint_mod_in_range: "randint_in_range (\<lambda>g N. (g mod N, g + 4))"
  by (simp add: randint_in_range_def)

lemma draw_below_in_range: "draw_in_range (\<lambda>v j w. w - 2)"
  by (simp add: draw_in_range_def)

theorem queries_ask_backwards_witness:
  "good_queries (ba_random_tokens (\<lambda>g N. (g mod N, g + 4)) 1 (InitialCircle (2 * 1) 0) 2 1 False)
   \<and> list_all (\<lambda>t. \<not> query t \<or> index t < pvalue t) (pba_requests (\<lambda>v j w. w - 2) 2 1 False)
   \<and> (\<exists>st. ModelBBCR real_arith (\<lambda>g N. (of_nat g mod N, Suc g)) (\<lambda>g. (1 / 2, Suc g)) (4::nat)
              \<lparr>number_of_edges = 1, alpha = 1 / 8, beta = 3 / 4,
               degree_offset_in = 0, degree_offset_out = 1\<rparr> 3 2 = Some (Inr st)
           \<and> good_queries (sorter st))"
  using queries_ask_backwards[where m = 1 and randint = "\<lambda>g N. (g mod N, g + 4)" and n = 2
          and draw = "\<lambda>v j w. w - 2" and ?rand64.0 = "\<lambda>g N. (of_nat g mod N, Suc g)"
          and first_edge = 2 and g = 1 and d = False and arith = real_arith
          and cfg = "\<lparr>number_of_edges = 1, alpha = 1 / 8, beta = 3 / 4,
               degree_offset_in = 0, degree_offset_out = 1\<rparr>"
          and randdbl = "\<lambda>g. (1 / 2, Suc g)" and ?g0.0 = 4 and first_vertex = 3]
  by (simp add: randint_mod_in_range draw_below_in_range rand64_mod_in_range list_all_iff)

section \<open>The tokens emitted for a draw\<close>














section \<open>The processing of a token sequence returns\<close>





lemma slot_Link [simp]: "slot (Token False i v) = i"
  by (simp add: slot_def)

lemma slot_Query [simp]: "slot (Token True i v) = v"
  by (simp add: slot_def)















section \<open>The streams of the sequential generator in closed form\<close>













section \<open>The run of the sequential generator writes every edge\<close>












end
